theory Spec2Isabelle
  imports Main "HOL-Library.Word"
begin

unbundle bit_operations_syntax

section \<open>The sharing map of src/util/sharing\_map.h\<close>

text \<open>
  The sharing map is a fixed-height trie over the low \<open>bits\<close> bits of the hash of a key.
  A node handle (\<open>innert\<close>) points to a payload that several handles may share; the
  model keeps the address of the payload in the node, so that \<open>shares_with\<close>, which
  compares payload pointers, is a comparison of addresses. \<open>std::size_t\<close> is taken to
  be 64 bits wide.
\<close>

type_synonym size_t = "64 word"
type_synonym addr = nat

text \<open>
  The three ways in which the program aborts: \<open>PRECONDITION\<close>, \<open>INVARIANT\<close>, and
  \<open>SM_ASSERT\<close>, which is \<open>INVARIANT(b, "Sharing map internal invariant")\<close> when
  \<open>SM_INTERNAL_CHECKS\<close> is defined and nothing otherwise (l.35-39).
\<close>

datatype error = Precondition_violation | Invariant_violation | Internal_invariant_violation

subsection \<open>Configuration (l.1327-1333)\<close>

definition dummy_level :: nat where
  "dummy_level = 0xff"

definition bits :: nat where
  "bits = 30"

definition chunk :: nat where
  "chunk = 3"

definition mask_sm :: size_t where
  "mask_sm = drop_bit (16 - chunk) (0xffff :: size_t)"

definition levels :: nat where
  "levels = bits div chunk"

subsection \<open>Nodes and leaves\<close>

text \<open>
  Modelled from the spec: the node classes \<open>sharing_node_innert\<close> and
  \<open>sharing_node_leaft\<close> of sharing\_node.h are not among the sources. The spec (3, 4.1)
  gives a leaf as a reference-counted (key, value) pair and a node as one of empty,
  internal (an ordered mapping from chunk values to children) and container (a list of
  leaves). Every payload carries its address.
\<close>

datatype ('k, 'v) leaft = Leaf (leaf_addr: addr) (get_key: 'k) (get_value: 'v)

datatype ('k, 'v) innert =
    Empty
  | Internal addr "(size_t \<times> ('k, 'v) innert) list"
  | Container addr "('k, 'v) leaft list"

text \<open>
  Modelled from the spec: the state discriminators. On an empty node the source asks
  both questions and expects yes: the root of an empty map passes
  \<open>SM_ASSERT(ip->is_internal())\<close> (l.1224, l.1234), and \<open>erase\<close> leaves its loop on
  \<open>is_container()\<close> and only then requires \<open>!ip->empty()\<close> (l.1118-1124).
\<close>

fun is_empty :: "('k, 'v) innert \<Rightarrow> bool" where
  "is_empty Empty = True"
| "is_empty _ = False"

fun is_internal :: "('k, 'v) innert \<Rightarrow> bool" where
  "is_internal (Container _ _) = False"
| "is_internal _ = True"

fun is_container :: "('k, 'v) innert \<Rightarrow> bool" where
  "is_container (Internal _ _) = False"
| "is_container _ = True"

definition is_defined_internal :: "('k, 'v) innert \<Rightarrow> bool" where
  "is_defined_internal n = (\<not> is_empty n \<and> is_internal n)"

definition is_defined_container :: "('k, 'v) innert \<Rightarrow> bool" where
  "is_defined_container n = (\<not> is_empty n \<and> is_container n)"

text \<open>
  Modelled from the spec: the read accessors. Reading the child mapping of a node that
  is not internal, or the leaf list of a node that is not a container, is outside the
  contract of the node class; the model reads an empty mapping or list there.
\<close>

fun get_to_map :: "('k, 'v) innert \<Rightarrow> (size_t \<times> ('k, 'v) innert) list" where
  "get_to_map (Internal _ m) = m"
| "get_to_map _ = []"

fun get_container :: "('k, 'v) innert \<Rightarrow> ('k, 'v) leaft list" where
  "get_container (Container _ ll) = ll"
| "get_container _ = []"

text \<open>
  Modelled from the spec: \<open>shares_with\<close> is true iff both handles refer to the same
  allocation (4.1). An empty handle refers to none.
\<close>

fun node_addr :: "('k, 'v) innert \<Rightarrow> addr option" where
  "node_addr Empty = None"
| "node_addr (Internal a _) = Some a"
| "node_addr (Container a _) = Some a"

definition shares_with :: "('k, 'v) innert \<Rightarrow> ('k, 'v) innert \<Rightarrow> bool" where
  "shares_with n1 n2 = (node_addr n1 = node_addr n2)"

definition leaf_shares_with :: "('k, 'v) leaft \<Rightarrow> ('k, 'v) leaft \<Rightarrow> bool" where
  "leaf_shares_with l1 l2 = (leaf_addr l1 = leaf_addr l2)"

text \<open>
  Modelled from the spec: \<open>find_child(i)\<close> returns the child at chunk value \<open>i\<close> if
  present, else absent; \<open>find_leaf(k)\<close> is a linear search by key equality (4.1).
\<close>

definition find_child :: "('k, 'v) innert \<Rightarrow> size_t \<Rightarrow> ('k, 'v) innert option" where
  "find_child n i = map_of (get_to_map n) i"

definition find_leaf :: "('k, 'v) innert \<Rightarrow> 'k \<Rightarrow> ('k, 'v) leaft option" where
  "find_leaf n k = List.find (\<lambda>l. get_key l = k) (get_container n)"

definition is_singular :: "'a list \<Rightarrow> bool" where
  "is_singular ll = (ll \<noteq> [] \<and> tl ll = [])"

subsection \<open>The map handle (l.609-613)\<close>

record ('k, 'v) sharing_mapt =
  map_sm :: "('k, 'v) innert"
  num :: size_t

definition size_sm :: "('k, 'v) sharing_mapt \<Rightarrow> size_t" where
  "size_sm sm = num sm"

definition empty_sm :: "('k, 'v) sharing_mapt \<Rightarrow> bool" where
  "empty_sm sm = (num sm = 0)"

text \<open>\<open>clear\<close>: \<open>map.clear()\<close> resets the root handle, \<open>num = 0\<close> (l.345-349).\<close>

definition clear :: "('k, 'v) sharing_mapt \<Rightarrow> ('k, 'v) sharing_mapt" where
  "clear sm = sm\<lparr>map_sm := Empty, num := 0\<rparr>"

text \<open>
  \<open>SM_ASSERT(b)\<close> fails iff \<open>SM_INTERNAL_CHECKS\<close> is defined (\<open>chk\<close>) and \<open>b\<close> is false.
\<close>

definition sm_assert_fails :: "bool \<Rightarrow> bool \<Rightarrow> bool" where
  "sm_assert_fails chk b = (chk \<and> \<not> b)"

subsection \<open>Lookup (l.526-536, l.1062-1090, l.1314-1323)\<close>

lemma size_map_of_child:
  "map_of m i = Some c \<Longrightarrow> size c < Suc (size_list (size_prod (\<lambda>_. 0) size) m)"
  by (induction m) (auto split: if_splits)

lemma size_find_child: "find_child n i = Some c \<Longrightarrow> size c < size n"
  by (cases n) (auto simp: find_child_def dest: size_map_of_child)

text \<open>
  The loop of the const \<open>get_container_node\<close>: \<open>ip\<close> is the node reached, \<open>key\<close> the
  rest of the hash. The result is the container reached, or \<open>nullptr\<close> (\<open>None\<close>).
\<close>

function get_container_node_loop ::
  "bool \<Rightarrow> ('k, 'v) innert \<Rightarrow> size_t \<Rightarrow> error + ('k, 'v) innert option" where
  "get_container_node_loop chk ip key =
     (case find_child ip (key AND mask_sm) of
        None \<Rightarrow> Inr None
      | Some c \<Rightarrow>
          if sm_assert_fails chk (\<not> is_empty c) then Inl Internal_invariant_violation
          else if is_container c then Inr (Some c)
          else get_container_node_loop chk c (drop_bit chunk key))"
  by pat_completeness auto
termination
  by (relation "measure (\<lambda>(chk, ip, key). size ip)") (auto dest: size_find_child)

definition get_container_node_const ::
  "bool \<Rightarrow> ('k \<Rightarrow> size_t) \<Rightarrow> ('k, 'v) sharing_mapt \<Rightarrow> 'k \<Rightarrow> error + ('k, 'v) innert option" where
  "get_container_node_const chk hash sm k =
     (if empty_sm sm then Inr None
      else if sm_assert_fails chk (is_defined_internal (map_sm sm))
        then Inl Internal_invariant_violation
      else get_container_node_loop chk (map_sm sm) (hash k))"

definition get_leaf_node ::
  "bool \<Rightarrow> ('k \<Rightarrow> size_t) \<Rightarrow> ('k, 'v) sharing_mapt \<Rightarrow> 'k \<Rightarrow> error + ('k, 'v) leaft option" where
  "get_leaf_node chk hash sm k =
     (case get_container_node_const chk hash sm k of
        Inl e \<Rightarrow> Inl e
      | Inr None \<Rightarrow> Inr None
      | Inr (Some cp) \<Rightarrow> Inr (find_leaf cp k))"

definition has_key :: "bool \<Rightarrow> ('k \<Rightarrow> size_t) \<Rightarrow> ('k, 'v) sharing_mapt \<Rightarrow> 'k \<Rightarrow> error + bool" where
  "has_key chk hash sm k =
     (case get_leaf_node chk hash sm k of
        Inl e \<Rightarrow> Inl e
      | Inr lp \<Rightarrow> Inr (lp \<noteq> None))"

definition find_sm ::
  "bool \<Rightarrow> ('k \<Rightarrow> size_t) \<Rightarrow> ('k, 'v) sharing_mapt \<Rightarrow> 'k \<Rightarrow> error + 'v option" where
  "find_sm chk hash sm k =
     (case get_leaf_node chk hash sm k of
        Inl e \<Rightarrow> Inl e
      | Inr None \<Rightarrow> Inr None
      | Inr (Some lp) \<Rightarrow> Inr (Some (get_value lp)))"


subsection \<open>Views (l.616-657, l.801-823)\<close>

lemma size_children_sum:
  "sum_list (map (\<lambda>x. Suc (size (snd x))) m) \<le> size_list (size_prod (\<lambda>_. 0) size) m"
  by (induction m) auto

lemma sum_list_map_rev: "sum_list (map f (rev xs)) = sum_list (map (f :: 'a \<Rightarrow> nat) xs)"
  by (simp add: rev_map[symmetric])

text \<open>
  \<open>iterate\<close> walks the trie with an explicit stack (the head of the list is the top).
  The callback \<open>f\<close> of the source is called once per leaf; the model returns the
  arguments of the calls, in order. The empty stack ends the \<open>do ... while\<close>, which
  starts with one node on the stack.
\<close>

function iterate_loop ::
  "bool \<Rightarrow> ('k, 'v) innert list \<Rightarrow> ('k \<times> 'v) list \<Rightarrow> error + ('k \<times> 'v) list" where
  "iterate_loop chk [] acc = Inr acc"
| "iterate_loop chk (ip # stack) acc =
     (if sm_assert_fails chk (\<not> is_empty ip) then Inl Internal_invariant_violation
      else if is_internal ip then
        (if sm_assert_fails chk (get_to_map ip \<noteq> []) then Inl Internal_invariant_violation
         else iterate_loop chk (rev (map snd (get_to_map ip)) @ stack) acc)
      else
        (if sm_assert_fails chk (is_container ip) then Inl Internal_invariant_violation
         else if sm_assert_fails chk (get_container ip \<noteq> []) then Inl Internal_invariant_violation
         else iterate_loop chk stack (acc @ map (\<lambda>l. (get_key l, get_value l)) (get_container ip))))"
  by pat_completeness auto
termination
  apply (relation "measure (\<lambda>(chk, st, acc). sum_list (map (\<lambda>n. Suc (size n)) st))")
    apply simp
  subgoal for chk ip stack acc
    using size_children_sum[of "get_to_map ip"]
    by (cases ip) (auto simp: o_def rev_map sum_list_map_rev)
  apply auto
  done

declare iterate_loop.simps [simp del]

definition iterate :: "bool \<Rightarrow> ('k, 'v) innert \<Rightarrow> error + ('k \<times> 'v) list" where
  "iterate chk n =
     (if sm_assert_fails chk (\<not> is_empty n) then Inl Internal_invariant_violation
      else iterate_loop chk [n] [])"

text \<open>\<open>get_view\<close> (l.801-813); \<open>view\<close> is the content of the out-parameter.\<close>

definition get_view ::
  "bool \<Rightarrow> ('k, 'v) sharing_mapt \<Rightarrow> ('k \<times> 'v) list \<Rightarrow> error + ('k \<times> 'v) list" where
  "get_view chk sm view =
     (if sm_assert_fails chk (view = []) then Inl Internal_invariant_violation
      else if empty_sm sm then Inr view
      else (case iterate chk (map_sm sm) of
              Inl e \<Rightarrow> Inl e
            | Inr items \<Rightarrow> Inr (view @ items)))"

subsection \<open>Delta views (l.369-402, l.825-1034)\<close>

text \<open>
  A delta view item holds the key, the value in this map, and the value in the other
  map if the key is in both (\<open>other_m\<close>, a null pointer otherwise).
\<close>

datatype ('k, 'v) delta_view_itemt = Delta_item (item_k: 'k) (item_m: 'v) (item_other_m: "'v option")

definition gather_all ::
  "bool \<Rightarrow> ('k, 'v) innert \<Rightarrow> ('k, 'v) delta_view_itemt list
     \<Rightarrow> error + ('k, 'v) delta_view_itemt list" where
  "gather_all chk n delta_view =
     (case iterate chk n of
        Inl e \<Rightarrow> Inl e
      | Inr items \<Rightarrow> Inr (delta_view @ map (\<lambda>(k, m). Delta_item k m None) items))"

text \<open>
  \<open>add_item_if_not_shared\<close> (l.825-886). \<open>add_item_scan\<close> is the \<open>for\<close> loop over
  the leaves of the container found in the second map, with the \<open>push_back\<close> that
  follows it; \<open>add_item_loop\<close> is the \<open>while(true)\<close> descent. \<open>front()\<close> of an empty
  leaf list is not defined; the model adds nothing there.
\<close>

fun add_item_scan ::
  "('k, 'v) leaft \<Rightarrow> ('k, 'v) leaft list \<Rightarrow> ('k, 'v) delta_view_itemt list
     \<Rightarrow> ('k, 'v) delta_view_itemt list" where
  "add_item_scan l1 [] delta_view =
     delta_view @ [Delta_item (get_key l1) (get_value l1) None]"
| "add_item_scan l1 (l2 # ll) delta_view =
     (if leaf_shares_with l1 l2 then delta_view
      else if get_key l1 = get_key l2
        then delta_view @ [Delta_item (get_key l1) (get_value l1) (Some (get_value l2))]
      else add_item_scan l1 ll delta_view)"

function add_item_loop ::
  "bool \<Rightarrow> ('k, 'v) leaft \<Rightarrow> ('k, 'v) innert \<Rightarrow> ('k, 'v) innert \<Rightarrow> size_t
     \<Rightarrow> ('k, 'v) delta_view_itemt list \<Rightarrow> bool \<Rightarrow> error + ('k, 'v) delta_view_itemt list" where
  "add_item_loop chk l1 container ip key delta_view only_common =
     (case find_child ip (key AND mask_sm) of
        None \<Rightarrow>
          Inr (if \<not> only_common
               then delta_view @ [Delta_item (get_key l1) (get_value l1) None]
               else delta_view)
      | Some c \<Rightarrow>
          if sm_assert_fails chk (\<not> is_empty c) then Inl Internal_invariant_violation
          else if is_container c then
            (if shares_with container c then Inr delta_view
             else Inr (add_item_scan l1 (get_container c) delta_view))
          else add_item_loop chk l1 container c (drop_bit chunk key) delta_view only_common)"
  by pat_completeness auto
termination
  by (relation "measure (\<lambda>(chk, l1, container, ip, key, dv, oc). size ip)")
     (auto dest: size_find_child)

declare add_item_loop.simps [simp del]

definition add_item_if_not_shared ::
  "bool \<Rightarrow> ('k \<Rightarrow> size_t) \<Rightarrow> ('k, 'v) innert \<Rightarrow> ('k, 'v) innert \<Rightarrow> nat
     \<Rightarrow> ('k, 'v) delta_view_itemt list \<Rightarrow> bool \<Rightarrow> error + ('k, 'v) delta_view_itemt list" where
  "add_item_if_not_shared chk hash container inner level delta_view only_common =
     (case get_container container of
        [] \<Rightarrow> Inr delta_view
      | l1 # _ \<Rightarrow>
          if sm_assert_fails chk (is_defined_internal inner) then Inl Internal_invariant_violation
          else add_item_loop chk l1 container inner
                 (drop_bit (level * chunk) (hash (get_key l1))) delta_view only_common)"

text \<open>
  \<open>get_delta_view\<close> (l.888-1034). The two stacks of the source (node pairs and
  levels) are pushed and popped together; the model keeps one stack of triples.
  \<open>push_unshared\<close> is the loop of l.952-964, \<open>delta_children\<close> the loop of l.973-992,
  \<open>delta_leaves\<close> the loop of l.1011-1031. An \<open>SM_ASSERT\<close> on \<open>has_key\<close> passes iff
  \<open>has_key\<close> returns the expected answer.
\<close>

type_synonym ('k, 'v) stack_itemt = "('k, 'v) innert \<times> ('k, 'v) innert \<times> nat"

fun push_unshared ::
  "('k, 'v) innert \<Rightarrow> (size_t \<times> ('k, 'v) innert) list \<Rightarrow> ('k, 'v) stack_itemt list
     \<Rightarrow> ('k, 'v) stack_itemt list" where
  "push_unshared ip2 [] stack = stack"
| "push_unshared ip2 (item # items) stack =
     (if \<not> shares_with (snd item) ip2
      then push_unshared ip2 items ((snd item, ip2, dummy_level) # stack)
      else push_unshared ip2 items stack)"

fun delta_children ::
  "bool \<Rightarrow> bool \<Rightarrow> ('k, 'v) innert \<Rightarrow> nat \<Rightarrow> (size_t \<times> ('k, 'v) innert) list
     \<Rightarrow> ('k, 'v) stack_itemt list \<Rightarrow> ('k, 'v) delta_view_itemt list
     \<Rightarrow> error + (('k, 'v) stack_itemt list \<times> ('k, 'v) delta_view_itemt list)" where
  "delta_children chk only_common ip2 level [] stack delta_view = Inr (stack, delta_view)"
| "delta_children chk only_common ip2 level (item # items) stack delta_view =
     (case find_child ip2 (fst item) of
        None \<Rightarrow>
          if \<not> only_common then
            (case gather_all chk (snd item) delta_view of
               Inl e \<Rightarrow> Inl e
             | Inr delta_view' \<Rightarrow>
                 delta_children chk only_common ip2 level items stack delta_view')
          else delta_children chk only_common ip2 level items stack delta_view
      | Some p \<Rightarrow>
          if \<not> shares_with (snd item) p
          then delta_children chk only_common ip2 level items
                 ((snd item, p, level + 1) # stack) delta_view
          else delta_children chk only_common ip2 level items stack delta_view)"

fun delta_leaves ::
  "bool \<Rightarrow> ('k \<Rightarrow> size_t) \<Rightarrow> ('k, 'v) sharing_mapt \<Rightarrow> bool \<Rightarrow> ('k, 'v) innert
     \<Rightarrow> ('k, 'v) leaft list \<Rightarrow> ('k, 'v) delta_view_itemt list
     \<Rightarrow> error + ('k, 'v) delta_view_itemt list" where
  "delta_leaves chk hash other only_common ip2 [] delta_view = Inr delta_view"
| "delta_leaves chk hash other only_common ip2 (l1 # ll) delta_view =
     (case find_leaf ip2 (get_key l1) of
        Some p \<Rightarrow>
          if \<not> leaf_shares_with l1 p then
            (if sm_assert_fails chk (has_key chk hash other (get_key l1) = Inr True)
             then Inl Internal_invariant_violation
             else delta_leaves chk hash other only_common ip2 ll
                    (delta_view @ [Delta_item (get_key l1) (get_value l1) (Some (get_value p))]))
          else delta_leaves chk hash other only_common ip2 ll delta_view
      | None \<Rightarrow>
          if \<not> only_common then
            (if sm_assert_fails chk (has_key chk hash other (get_key l1) = Inr False)
             then Inl Internal_invariant_violation
             else delta_leaves chk hash other only_common ip2 ll
                    (delta_view @ [Delta_item (get_key l1) (get_value l1) None]))
          else delta_leaves chk hash other only_common ip2 ll delta_view)"

definition stack_measure :: "('k, 'v) stack_itemt list \<Rightarrow> nat" where
  "stack_measure stack = sum_list (map (\<lambda>si. Suc (size (fst si))) stack)"

lemma stack_measure_push_unshared:
  "stack_measure (push_unshared ip2 items stack)
     \<le> sum_list (map (\<lambda>x. Suc (size (snd x))) items) + stack_measure stack"
  by (induction ip2 items stack rule: push_unshared.induct) (auto simp: stack_measure_def)

lemma stack_measure_delta_children:
  "delta_children chk oc ip2 level items stack dv = Inr (stack', dv')
     \<Longrightarrow> stack_measure stack'
           \<le> sum_list (map (\<lambda>x. Suc (size (snd x))) items) + stack_measure stack"
  by (induction chk oc ip2 level items stack dv rule: delta_children.induct)
     (auto simp: stack_measure_def split: option.splits if_splits sum.splits)

function delta_loop ::
  "bool \<Rightarrow> ('k \<Rightarrow> size_t) \<Rightarrow> ('k, 'v) sharing_mapt \<Rightarrow> bool \<Rightarrow> ('k, 'v) stack_itemt list
     \<Rightarrow> ('k, 'v) delta_view_itemt list \<Rightarrow> error + ('k, 'v) delta_view_itemt list" where
  "delta_loop chk hash other only_common [] delta_view = Inr delta_view"
| "delta_loop chk hash other only_common ((ip1, ip2, level) # stack) delta_view =
     (if sm_assert_fails chk (\<not> is_empty ip1) \<or> sm_assert_fails chk (\<not> is_empty ip2)
        then Inl Internal_invariant_violation
      else if is_internal ip1 \<and> is_container ip2 then
        (if sm_assert_fails chk (is_singular (get_container ip2))
           then Inl Internal_invariant_violation
         else delta_loop chk hash other only_common
                (push_unshared ip2 (get_to_map ip1) stack) delta_view)
      else if is_internal ip1 then
        (if sm_assert_fails chk (is_internal ip2) then Inl Internal_invariant_violation
         else (case delta_children chk only_common ip2 level (get_to_map ip1) stack delta_view of
                 Inl e \<Rightarrow> Inl e
               | Inr (stack', delta_view') \<Rightarrow>
                   delta_loop chk hash other only_common stack' delta_view'))
      else if sm_assert_fails chk (is_container ip1) then Inl Internal_invariant_violation
      else if is_internal ip2 then
        (if sm_assert_fails chk (is_singular (get_container ip1))
            \<or> sm_assert_fails chk (level \<noteq> dummy_level)
           then Inl Internal_invariant_violation
         else (case add_item_if_not_shared chk hash ip1 ip2 level delta_view only_common of
                 Inl e \<Rightarrow> Inl e
               | Inr delta_view' \<Rightarrow> delta_loop chk hash other only_common stack delta_view'))
      else if sm_assert_fails chk (is_container ip2) then Inl Internal_invariant_violation
      else (case delta_leaves chk hash other only_common ip2 (get_container ip1) delta_view of
              Inl e \<Rightarrow> Inl e
            | Inr delta_view' \<Rightarrow> delta_loop chk hash other only_common stack delta_view'))"
  by pat_completeness auto
termination
  apply (relation "measure (\<lambda>(chk, hash, other, oc, stack, dv). stack_measure stack)")
      apply simp
  subgoal for chk hash other only_common ip1 ip2 level stack delta_view
    using stack_measure_push_unshared[of ip2 "get_to_map ip1" stack]
      size_children_sum[of "get_to_map ip1"]
    by (cases ip1) (auto simp: stack_measure_def)
  subgoal for chk hash other only_common ip1 ip2 level stack delta_view x2 stack' dv'
    using stack_measure_delta_children[of chk only_common ip2 level "get_to_map ip1" stack delta_view stack' dv']
      size_children_sum[of "get_to_map ip1"]
    by (cases ip1) (auto simp: stack_measure_def)
  subgoal by (simp add: stack_measure_def)
  subgoal by (simp add: stack_measure_def)
  done

declare delta_loop.simps [simp del]

definition get_delta_view ::
  "bool \<Rightarrow> ('k \<Rightarrow> size_t) \<Rightarrow> ('k, 'v) sharing_mapt \<Rightarrow> ('k, 'v) sharing_mapt
     \<Rightarrow> ('k, 'v) delta_view_itemt list \<Rightarrow> bool \<Rightarrow> error + ('k, 'v) delta_view_itemt list" where
  "get_delta_view chk hash sm other delta_view only_common =
     (if sm_assert_fails chk (delta_view = []) then Inl Internal_invariant_violation
      else if empty_sm sm then Inr delta_view
      else if empty_sm other then
        (if \<not> only_common then gather_all chk (map_sm sm) delta_view else Inr delta_view)
      else if shares_with (map_sm sm) (map_sm other) then Inr delta_view
      else delta_loop chk hash other only_common [(map_sm sm, map_sm other, 0)] delta_view)"

text \<open>
  The copy constructor is the implicit one: the copy of the root handle points to the
  same payload, \<open>num\<close> is copied.
\<close>

definition clone :: "('k, 'v) sharing_mapt \<Rightarrow> ('k, 'v) sharing_mapt" where
  "clone sm = sm"


subsection \<open>Writing nodes\<close>

text \<open>
  Modelled from the spec: \<open>add_child\<close>, \<open>remove_child\<close>, \<open>place_leaf\<close> and
  \<open>remove_leaf\<close> of sharing\_node.h (4.1), which clone the node first if it is shared.
  Whether a node is shared is its use count, a fact about all handles of the heap that a
  node of the model does not hold. In the model every node that is written gets a new
  address, which the caller supplies. A node that is not shared keeps its address in
  the program; no other handle has that address, so no \<open>shares_with\<close> between two maps
  tells the difference.

  The child mapping is ordered by chunk value: \<open>to_map_insert\<close> adds a new entry in
  order, \<open>to_map_set\<close> overwrites the child of an entry. \<open>add_child a n i\<close> is the node
  after \<open>add_child(i)\<close>, \<open>child_of n i\<close> the node that the returned pointer refers to
  (an empty one if there was none), and \<open>put_child n i c\<close> the node after the child at
  \<open>i\<close> has been written through that pointer.
\<close>

fun to_map_insert ::
  "size_t \<Rightarrow> ('k, 'v) innert \<Rightarrow> (size_t \<times> ('k, 'v) innert) list \<Rightarrow> (size_t \<times> ('k, 'v) innert) list" where
  "to_map_insert i c [] = [(i, c)]"
| "to_map_insert i c (x # m) = (if i < fst x then (i, c) # x # m else x # to_map_insert i c m)"

definition to_map_set ::
  "size_t \<Rightarrow> ('k, 'v) innert \<Rightarrow> (size_t \<times> ('k, 'v) innert) list \<Rightarrow> (size_t \<times> ('k, 'v) innert) list" where
  "to_map_set i c m = map (\<lambda>x. if fst x = i then (i, c) else x) m"

definition add_child :: "addr \<Rightarrow> ('k, 'v) innert \<Rightarrow> size_t \<Rightarrow> ('k, 'v) innert" where
  "add_child a n i =
     Internal a (if find_child n i = None then to_map_insert i Empty (get_to_map n)
                 else get_to_map n)"

definition child_of :: "('k, 'v) innert \<Rightarrow> size_t \<Rightarrow> ('k, 'v) innert" where
  "child_of n i = (case find_child n i of None \<Rightarrow> Empty | Some c \<Rightarrow> c)"

definition put_child :: "('k, 'v) innert \<Rightarrow> size_t \<Rightarrow> ('k, 'v) innert \<Rightarrow> ('k, 'v) innert" where
  "put_child n i c = (case n of Internal a m \<Rightarrow> Internal a (to_map_set i c m) | _ \<Rightarrow> n)"

definition remove_child :: "addr \<Rightarrow> ('k, 'v) innert \<Rightarrow> size_t \<Rightarrow> ('k, 'v) innert" where
  "remove_child a n i = Internal a (filter (\<lambda>x. fst x \<noteq> i) (get_to_map n))"

text \<open>
  Modelled from the spec: \<open>place_leaf(k, v)\<close> installs a new leaf in an empty or
  container node (4.1). The leaf list is a \<open>std::forward_list\<close> (l.122), which grows at
  the front, as the \<open>push_front\<close> of l.1210 does. \<open>a\<close> is the address of the written
  container, \<open>la\<close> that of the new leaf. \<open>remove_leaf(k)\<close> drops the matching leaf;
  without one the contract of \<open>erase\<close> is violated (7).
\<close>

definition place_leaf :: "addr \<Rightarrow> addr \<Rightarrow> ('k, 'v) innert \<Rightarrow> 'k \<Rightarrow> 'v \<Rightarrow> ('k, 'v) innert" where
  "place_leaf a la n k v = Container a (Leaf la k v # get_container n)"

fun remove_leaf_list :: "'k \<Rightarrow> ('k, 'v) leaft list \<Rightarrow> ('k, 'v) leaft list" where
  "remove_leaf_list k [] = []"
| "remove_leaf_list k (l # ll) = (if get_key l = k then ll else l # remove_leaf_list k ll)"

definition remove_leaf :: "addr \<Rightarrow> ('k, 'v) innert \<Rightarrow> 'k \<Rightarrow> error + ('k, 'v) innert" where
  "remove_leaf a n k =
     (if find_leaf n k = None then Inl Precondition_violation
      else Inr (Container a (remove_leaf_list k (get_container n))))"

text \<open>
  A pointer into the trie below a node is the list of chunk values that leads to
  it: \<open>node_at\<close> reads through such a pointer and \<open>update_at\<close> writes through it.
\<close>

fun update_at ::
  "size_t list \<Rightarrow> (('k, 'v) innert \<Rightarrow> ('k, 'v) innert) \<Rightarrow> ('k, 'v) innert \<Rightarrow> ('k, 'v) innert" where
  "update_at [] f n = f n"
| "update_at (b # p) f n = put_child n b (update_at p f (child_of n b))"

fun node_at :: "size_t list \<Rightarrow> ('k, 'v) innert \<Rightarrow> ('k, 'v) innert" where
  "node_at [] n = n"
| "node_at (b # p) n = node_at p (child_of n b)"

subsection \<open>Insert (l.1142-1277)\<close>

text \<open>
  Addresses: a mutating call takes the first address \<open>al\<close> of a block of
  \<open>levels + 2\<close> unused addresses. A node written at depth \<open>d\<close> gets \<open>al + d\<close> and a new
  leaf gets \<open>al + levels + 1\<close>.

  \<open>migrate_loop\<close> is the \<open>do ... while\<close> of \<open>migrate\<close> (l.1184-1207) with the two
  statements after it: it returns the node \<open>ip\<close> at depth \<open>level\<close> as the loop leaves it,
  and the pointer that \<open>migrate\<close> returns, as a path from that node.
\<close>

function migrate_loop ::
  "addr \<Rightarrow> ('k, 'v) innert \<Rightarrow> nat \<Rightarrow> size_t \<Rightarrow> size_t \<Rightarrow> ('k, 'v) innert \<times> size_t list" where
  "migrate_loop al container_copy level key key_existing =
     (let bit_existing = key_existing AND mask_sm;
          bit = key AND mask_sm
      in if bit \<noteq> bit_existing then
           (add_child (al + level)
              (put_child (add_child (al + level) Empty bit_existing) bit_existing container_copy) bit,
            [bit])
         else if level + 1 < levels then
           (let (sub, cp) = migrate_loop al container_copy (level + 1)
                              (drop_bit chunk key) (drop_bit chunk key_existing)
            in (put_child (add_child (al + level) Empty bit) bit sub, bit # cp))
         else
           (case get_container container_copy of
              [] \<Rightarrow> (add_child (al + level) Empty bit, [bit])
            | leaf_copy # _ \<Rightarrow>
                (put_child (add_child (al + level) Empty bit) bit
                   (Container (al + level + 1) [leaf_copy]),
                 [bit])))"
  by pat_completeness auto
termination
  by (relation "measure (\<lambda>(al, cc, level, key, key_existing). levels - level)") auto

declare migrate_loop.simps [simp del]

text \<open>
  \<open>migrate\<close> returns \<open>inner\<close> as written and the returned pointer as a path from
  \<open>inner\<close>. \<open>front()\<close> of an empty leaf list is not defined; the model leaves \<open>inner\<close>
  as it is there.
\<close>

definition migrate ::
  "('k \<Rightarrow> size_t) \<Rightarrow> addr \<Rightarrow> nat \<Rightarrow> size_t \<Rightarrow> size_t \<Rightarrow> ('k, 'v) innert
     \<Rightarrow> ('k, 'v) innert \<times> size_t list" where
  "migrate hash al starting_level key_suffix bit_last inner =
     (let child = child_of inner bit_last in
      case get_container child of
        [] \<Rightarrow> (inner, [bit_last])
      | leaf # _ \<Rightarrow>
          (let key_existing = drop_bit (chunk * starting_level) (hash (get_key leaf));
               container_copy = child;
               inner1 = remove_child (al + starting_level) inner bit_last;
               inner2 = add_child (al + starting_level) inner1 bit_last;
               (sub, cp) = migrate_loop al container_copy (starting_level + 1)
                             (drop_bit chunk key_suffix) (drop_bit chunk key_existing)
           in (put_child inner2 bit_last sub, bit_last # cp)))"

text \<open>
  \<open>insert\<close> (l.1215-1277) in the default build, where \<open>SM_ASSERT\<close> is empty:
  \<open>insert_loop\<close> is the \<open>while(true)\<close> from the node \<open>ip\<close> at depth \<open>level\<close> on and
  returns \<open>ip\<close> as written.
\<close>

lemma size_child_of: "\<not> is_empty (child_of n i) \<Longrightarrow> size (child_of n i) < size n"
  by (auto simp: child_of_def split: option.splits dest: size_find_child)

function insert_loop ::
  "('k \<Rightarrow> size_t) \<Rightarrow> addr \<Rightarrow> 'k \<Rightarrow> 'v \<Rightarrow> ('k, 'v) innert \<Rightarrow> size_t \<Rightarrow> nat \<Rightarrow> ('k, 'v) innert" where
  "insert_loop hash al k v ip key level =
     (let bit = key AND mask_sm;
          ip' = add_child (al + level) ip bit;
          child = child_of ip bit
      in if is_empty child then
           put_child ip' bit (place_leaf (al + level + 1) (al + levels + 1) child k v)
         else if is_container child then
           (if level < levels - 1 then
              (let (ip'', cp) = migrate hash al level key bit ip'
               in update_at cp
                    (\<lambda>n. place_leaf (al + level + length cp) (al + levels + 1) n k v) ip'')
            else
              put_child ip' bit (place_leaf (al + level + 1) (al + levels + 1) child k v))
         else
           put_child ip' bit (insert_loop hash al k v child (drop_bit chunk key) (level + 1)))"
  by pat_completeness auto
termination
  by (relation "measure (\<lambda>(hash, al, k, v, ip, key, level). size ip)")
     (auto dest: size_child_of)

declare insert_loop.simps [simp del]

definition insert_sm ::
  "('k \<Rightarrow> size_t) \<Rightarrow> addr \<Rightarrow> 'k \<Rightarrow> 'v \<Rightarrow> ('k, 'v) sharing_mapt \<Rightarrow> ('k, 'v) sharing_mapt" where
  "insert_sm hash al k v sm =
     sm\<lparr>map_sm := insert_loop hash al k v (map_sm sm) (hash k) 0, num := num sm + 1\<rparr>"

subsection \<open>Erase (l.1092-1140)\<close>

text \<open>
  \<open>erase\<close> in the default build. The source walks down and remembers in \<open>del\<close> the
  deepest node on the path that has more than one child (the first node, if there is
  none), then removes the child \<open>del_bit\<close> of \<open>del\<close> if the container reached holds one
  leaf. \<open>erase_loop\<close> is that walk from the node \<open>ip\<close> on, with \<open>del_is_null\<close> for
  \<open>del == nullptr\<close>. It returns \<open>ip\<close> as written, or \<open>None\<close> when the subtree of \<open>ip\<close>
  is to be removed by a node above: that is, when \<open>del\<close> stays above \<open>ip\<close>. A node that
  takes \<open>del\<close> (\<open>del_here\<close>) and gets \<open>None\<close> from below is the final \<open>del\<close> and removes
  its child. A missing child is created empty by \<open>add_child\<close>, ends the loop and fails
  \<open>PRECONDITION(!ip->empty())\<close>. Reading the child mapping of a root that is not an
  internal node is outside the contract of the node class; the model reports a
  violated precondition.
\<close>

function erase_loop ::
  "addr \<Rightarrow> 'k \<Rightarrow> ('k, 'v) innert \<Rightarrow> size_t \<Rightarrow> nat \<Rightarrow> bool \<Rightarrow> error + ('k, 'v) innert option" where
  "erase_loop al k ip key level del_is_null =
     (case ip of
        Internal a m \<Rightarrow>
          (let bit = key AND mask_sm;
               del_here = (length m > 1 \<or> del_is_null);
               ip' = add_child (al + level) ip bit;
               child = child_of ip bit
           in if is_empty child then Inl Precondition_violation
              else if is_container child then
                (case get_container child of
                   [] \<Rightarrow> Inl Precondition_violation
                 | [l] \<Rightarrow>
                     if get_key l \<noteq> k then Inl Precondition_violation
                     else if del_here then Inr (Some (remove_child (al + level) ip' bit))
                     else Inr None
                 | _ \<Rightarrow>
                     (case remove_leaf (al + level + 1) child k of
                        Inl e \<Rightarrow> Inl e
                      | Inr child' \<Rightarrow> Inr (Some (put_child ip' bit child'))))
              else
                (case erase_loop al k child (drop_bit chunk key) (level + 1) False of
                   Inl e \<Rightarrow> Inl e
                 | Inr (Some child') \<Rightarrow> Inr (Some (put_child ip' bit child'))
                 | Inr None \<Rightarrow>
                     if del_here then Inr (Some (remove_child (al + level) ip' bit))
                     else Inr None))
      | _ \<Rightarrow> Inl Precondition_violation)"
  by pat_completeness auto
termination
  by (relation "measure (\<lambda>(al, k, ip, key, level, d). size ip)")
     (auto dest: size_child_of)

declare erase_loop.simps [simp del]

definition erase ::
  "('k \<Rightarrow> size_t) \<Rightarrow> addr \<Rightarrow> 'k \<Rightarrow> ('k, 'v) sharing_mapt \<Rightarrow> error + ('k, 'v) sharing_mapt" where
  "erase hash al k sm =
     (case erase_loop al k (map_sm sm) (hash k) 0 True of
        Inl e \<Rightarrow> Inl e
      | Inr None \<Rightarrow> Inl Precondition_violation
      | Inr (Some root) \<Rightarrow> Inr (sm\<lparr>map_sm := root, num := num sm - 1\<rparr>))"

subsection \<open>Replace and update (l.1036-1060, l.1279-1312)\<close>

text \<open>
  The non-const \<open>get_container_node\<close> in the default build: it returns the root as
  written and the pointer to the node reached, as a path. A missing child is created
  empty and ends the walk.
\<close>

function get_container_node_loop_nc ::
  "addr \<Rightarrow> ('k, 'v) innert \<Rightarrow> size_t \<Rightarrow> nat \<Rightarrow> ('k, 'v) innert \<times> size_t list" where
  "get_container_node_loop_nc al ip key level =
     (let bit = key AND mask_sm;
          ip' = add_child (al + level) ip bit;
          child = child_of ip bit
      in if is_container child then (ip', [bit])
         else (let (child', cp) = get_container_node_loop_nc al child (drop_bit chunk key) (level + 1)
               in (put_child ip' bit child', bit # cp)))"
  by pat_completeness auto
termination
  by (relation "measure (\<lambda>(al, ip, key, level). size ip)")
     (auto intro!: size_child_of elim: is_empty.elims)

declare get_container_node_loop_nc.simps [simp del]

definition get_container_node ::
  "('k \<Rightarrow> size_t) \<Rightarrow> addr \<Rightarrow> ('k, 'v) sharing_mapt \<Rightarrow> 'k \<Rightarrow> ('k, 'v) innert \<times> size_t list" where
  "get_container_node hash al sm k = get_container_node_loop_nc al (map_sm sm) (hash k) 0"

text \<open>
  Modelled from the spec: the non-const \<open>find_leaf\<close> and \<open>set_value\<close> /
  \<open>mutate_value\<close> write the container and the first leaf with the key.
\<close>

fun set_value_list :: "addr \<Rightarrow> 'k \<Rightarrow> 'v \<Rightarrow> ('k, 'v) leaft list \<Rightarrow> ('k, 'v) leaft list" where
  "set_value_list la k v [] = []"
| "set_value_list la k v (l # ll) =
     (if get_key l = k then Leaf la (get_key l) v # ll else l # set_value_list la k v ll)"

definition set_value :: "addr \<Rightarrow> addr \<Rightarrow> ('k, 'v) innert \<Rightarrow> 'k \<Rightarrow> 'v \<Rightarrow> ('k, 'v) innert" where
  "set_value a la n k v = Container a (set_value_list la k v (get_container n))"

text \<open>
  \<open>value_equalt\<close> is \<open>std::equal_to<valueT>\<close> if \<open>fail_if_equal\<close> and \<open>falset\<close> otherwise
  (l.204-214); \<open>value_comparatort\<close> compares with the old value if \<open>fail_if_equal\<close> and
  answers false otherwise (l.216-245). \<open>veq\<close> is \<open>operator==\<close> of the value type.
\<close>

definition value_equalt :: "bool \<Rightarrow> ('v \<Rightarrow> 'v \<Rightarrow> bool) \<Rightarrow> 'v \<Rightarrow> 'v \<Rightarrow> bool" where
  "value_equalt fail_if_equal veq lhs rhs = (if fail_if_equal then veq lhs rhs else False)"

definition value_comparatort :: "bool \<Rightarrow> ('v \<Rightarrow> 'v \<Rightarrow> bool) \<Rightarrow> 'v \<Rightarrow> 'v \<Rightarrow> bool" where
  "value_comparatort fail_if_equal veq old_value new_value =
     (if fail_if_equal then veq old_value new_value else False)"

definition replace ::
  "bool \<Rightarrow> ('v \<Rightarrow> 'v \<Rightarrow> bool) \<Rightarrow> ('k \<Rightarrow> size_t) \<Rightarrow> addr \<Rightarrow> 'k \<Rightarrow> 'v \<Rightarrow> ('k, 'v) sharing_mapt
     \<Rightarrow> error + ('k, 'v) sharing_mapt" where
  "replace fail_if_equal veq hash al k m sm =
     (let (root, cp) = get_container_node hash al sm k
      in case find_leaf (node_at cp root) k of
           None \<Rightarrow> Inl Precondition_violation
         | Some lp \<Rightarrow>
             if value_equalt fail_if_equal veq (get_value lp) m then Inl Invariant_violation
             else Inr (sm\<lparr>map_sm :=
                    update_at cp (\<lambda>n. set_value (al + length cp) (al + levels + 1) n k m) root\<rparr>))"

definition update_sm ::
  "bool \<Rightarrow> ('v \<Rightarrow> 'v \<Rightarrow> bool) \<Rightarrow> ('k \<Rightarrow> size_t) \<Rightarrow> addr \<Rightarrow> 'k \<Rightarrow> ('v \<Rightarrow> 'v)
     \<Rightarrow> ('k, 'v) sharing_mapt \<Rightarrow> error + ('k, 'v) sharing_mapt" where
  "update_sm fail_if_equal veq hash al k mutator sm =
     (let (root, cp) = get_container_node hash al sm k
      in case find_leaf (node_at cp root) k of
           None \<Rightarrow> Inl Precondition_violation
         | Some lp \<Rightarrow>
             (let old_value = get_value lp;
                  new_value = mutator old_value
              in if value_comparatort fail_if_equal veq old_value new_value
                 then Inl Invariant_violation
                 else Inr (sm\<lparr>map_sm :=
                        update_at cp
                          (\<lambda>n. set_value (al + length cp) (al + levels + 1) n k new_value) root\<rparr>)))"

subsection \<open>Invariants and abstraction\<close>

text \<open>
  The leaves below a node, in the order in which \<open>iterate\<close> visits them: the last
  child first.
\<close>

fun leaves :: "('k, 'v) innert \<Rightarrow> ('k, 'v) leaft list" where
  "leaves Empty = []"
| "leaves (Container a ll) = ll"
| "leaves (Internal a m) = concat (map (\<lambda>x. leaves (snd x)) (rev m))"

text \<open>The chunk of the hash of \<open>k\<close> that selects the child at depth \<open>d\<close>.\<close>

definition chunk_at :: "('k \<Rightarrow> size_t) \<Rightarrow> 'k \<Rightarrow> nat \<Rightarrow> size_t" where
  "chunk_at hash k d = drop_bit (chunk * d) (hash k) AND mask_sm"

text \<open>
  The invariants of the trie (I1-I5 of the spec, 3) for a node at depth \<open>d > 0\<close>: no
  node is empty; a container holds at least one leaf, its keys are distinct, and it
  holds one leaf unless it is at the bottom (depth \<open>levels\<close>); an internal node is above
  the bottom, has a child, its child mapping is ordered by chunk value, and every key
  below the child at \<open>i\<close> has the chunk \<open>i\<close> at depth \<open>d\<close>. The root (\<open>inv_root\<close>) is empty
  or an internal node that may have no child. \<open>inv_sm\<close> adds I6: \<open>num\<close> is the number
  of leaves.
\<close>

fun inv_node :: "('k \<Rightarrow> size_t) \<Rightarrow> nat \<Rightarrow> ('k, 'v) innert \<Rightarrow> bool" where
  "inv_node hash d Empty = False"
| "inv_node hash d (Container a ll) =
     (ll \<noteq> [] \<and> distinct (map get_key ll) \<and> (d < levels \<longrightarrow> length ll = 1) \<and> d \<le> levels)"
| "inv_node hash d (Internal a m) =
     (d < levels \<and> m \<noteq> [] \<and> sorted_wrt (<) (map fst m)
      \<and> (\<forall>x \<in> set m. inv_node hash (Suc d) (snd x)
            \<and> (\<forall>l \<in> set (leaves (snd x)). chunk_at hash (get_key l) d = fst x)))"

definition inv_children ::
  "('k \<Rightarrow> size_t) \<Rightarrow> nat \<Rightarrow> (size_t \<times> ('k, 'v) innert) list \<Rightarrow> bool" where
  "inv_children hash d m =
     (sorted_wrt (<) (map fst m)
      \<and> (\<forall>x \<in> set m. inv_node hash (Suc d) (snd x)
            \<and> (\<forall>l \<in> set (leaves (snd x)). chunk_at hash (get_key l) d = fst x)))"

definition inv_root :: "('k \<Rightarrow> size_t) \<Rightarrow> ('k, 'v) innert \<Rightarrow> bool" where
  "inv_root hash n =
     (case n of Empty \<Rightarrow> True | Internal a m \<Rightarrow> inv_children hash 0 m | Container a ll \<Rightarrow> False)"

definition inv_sm :: "('k \<Rightarrow> size_t) \<Rightarrow> ('k, 'v) sharing_mapt \<Rightarrow> bool" where
  "inv_sm hash sm =
     (inv_root hash (map_sm sm) \<and> unat (num sm) = length (leaves (map_sm sm)))"

text \<open>
  \<open>lookup\<close> is \<open>get_leaf_node\<close> from a node on; \<open>with_key\<close> and \<open>without_key\<close> select
  the leaves with and without a key.
\<close>

definition lookup ::
  "bool \<Rightarrow> ('k, 'v) innert \<Rightarrow> size_t \<Rightarrow> 'k \<Rightarrow> error + ('k, 'v) leaft option" where
  "lookup chk ip key k =
     (case get_container_node_loop chk ip key of
        Inl e \<Rightarrow> Inl e
      | Inr None \<Rightarrow> Inr None
      | Inr (Some cp) \<Rightarrow> Inr (find_leaf cp k))"

definition with_key :: "'k \<Rightarrow> ('k, 'v) leaft list \<Rightarrow> ('k, 'v) leaft list" where
  "with_key k ll = filter (\<lambda>l. get_key l = k) ll"

definition without_key :: "'k \<Rightarrow> ('k, 'v) leaft list \<Rightarrow> ('k, 'v) leaft list" where
  "without_key k ll = filter (\<lambda>l. get_key l \<noteq> k) ll"

text \<open>
  What \<open>erase_loop\<close> returns on a node with the child mapping \<open>m\<close> at depth \<open>d\<close>, when
  the key is below it: no error; \<open>None\<close> only below the first node and only if no other
  key is below \<open>m\<close>; otherwise the node written, with the invariant, and with the old
  leaves without the key.
\<close>

definition erase_post ::
  "('k \<Rightarrow> size_t) \<Rightarrow> addr \<Rightarrow> 'k \<Rightarrow> nat \<Rightarrow> bool \<Rightarrow> (size_t \<times> ('k, 'v) innert) list
     \<Rightarrow> error + ('k, 'v) innert option \<Rightarrow> bool" where
  "erase_post hash al k d first m r =
     (case r of
        Inl e \<Rightarrow> False
      | Inr None \<Rightarrow> \<not> first \<and> without_key k (concat (map (\<lambda>x. leaves (snd x)) (rev m))) = []
      | Inr (Some n') \<Rightarrow>
          (\<exists>m'. n' = Internal (al + d) m' \<and> inv_children hash d m' \<and> (first \<or> m' \<noteq> [])
             \<and> leaves n' = without_key k (concat (map (\<lambda>x. leaves (snd x)) (rev m)))))"

text \<open>The view item of a leaf, and the keys of a map.\<close>

definition kv_of :: "('k, 'v) leaft \<Rightarrow> 'k \<times> 'v" where
  "kv_of l = (get_key l, get_value l)"

definition keys_of :: "('k, 'v) sharing_mapt \<Rightarrow> 'k set" where
  "keys_of sm = get_key ` set (leaves (map_sm sm))"

text \<open>
  Sequences of \<open>insert\<close> and \<open>erase\<close> calls: \<open>run_ops\<close> runs one on a map (every call
  with a block of unused addresses), \<open>keys_after\<close> is the set of keys inserted and not
  erased afterwards, and \<open>valid_ops\<close> says that every call respects its precondition:
  \<open>insert\<close> of a key that is not in the set, \<open>erase\<close> of one that is.
\<close>

datatype ('k, 'v) sm_op = Insert_op 'k 'v | Erase_op 'k

fun run_ops ::
  "('k \<Rightarrow> size_t) \<Rightarrow> addr \<Rightarrow> ('k, 'v) sm_op list \<Rightarrow> ('k, 'v) sharing_mapt
     \<Rightarrow> error + ('k, 'v) sharing_mapt" where
  "run_ops hash al [] sm = Inr sm"
| "run_ops hash al (Insert_op k v # ops) sm =
     run_ops hash (al + levels + 2) ops (insert_sm hash al k v sm)"
| "run_ops hash al (Erase_op k # ops) sm =
     (case erase hash al k sm of
        Inl e \<Rightarrow> Inl e
      | Inr sm' \<Rightarrow> run_ops hash (al + levels + 2) ops sm')"

fun keys_after :: "'k set \<Rightarrow> ('k, 'v) sm_op list \<Rightarrow> 'k set" where
  "keys_after S [] = S"
| "keys_after S (Insert_op k v # ops) = keys_after (insert k S) ops"
| "keys_after S (Erase_op k # ops) = keys_after (S - {k}) ops"

fun valid_ops :: "'k set \<Rightarrow> ('k, 'v) sm_op list \<Rightarrow> bool" where
  "valid_ops S [] = True"
| "valid_ops S (Insert_op k v # ops) = (k \<notin> S \<and> valid_ops (insert k S) ops)"
| "valid_ops S (Erase_op k # ops) = (k \<in> S \<and> valid_ops (S - {k}) ops)"

text \<open>
  \<open>keys_in L dv\<close>: every item of the delta view \<open>dv\<close> carries the key of a leaf of \<open>L\<close>;
  \<open>stack_in L stack\<close>: the first node of every stack item of \<open>get_delta_view\<close> holds
  only leaves of \<open>L\<close>.
\<close>

definition keys_in :: "('k, 'v) leaft set \<Rightarrow> ('k, 'v) delta_view_itemt list \<Rightarrow> bool" where
  "keys_in L dv = (\<forall>it \<in> set dv. item_k it \<in> get_key ` L)"

definition stack_in :: "('k, 'v) leaft set \<Rightarrow> ('k, 'v) stack_itemt list \<Rightarrow> bool" where
  "stack_in L stack = (\<forall>si \<in> set stack. set (leaves (fst si)) \<subseteq> L)"

subsection \<open>Maps for the examples\<close>

text \<open>
  The map as constructed (\<open>innert map; size_type num = 0\<close>, l.610-613), and a hash on
  natural numbers for the examples: the number itself.
\<close>

definition new_sm :: "('k, 'v) sharing_mapt" where
  "new_sm = \<lparr>map_sm = Empty, num = 0\<rparr>"

definition hash_nat :: "nat \<Rightarrow> size_t" where
  "hash_nat n = of_nat n"

text \<open>
  \<open>map_A\<close> holds the key 8; \<open>map_B\<close> holds the keys 72 and 16. The three hashes have
  the same first chunk, and 8 and 72 the same second chunk.
\<close>

definition map_A :: "(nat, nat) sharing_mapt" where
  "map_A = insert_sm hash_nat 100 8 80 new_sm"

definition map_B :: "(nat, nat) sharing_mapt" where
  "map_B = insert_sm hash_nat 300 16 160 (insert_sm hash_nat 200 72 720 new_sm)"

text \<open>\<open>map_K\<close> holds the key "k" with the value 5, under a hash that is always 0.\<close>

definition map_K :: "(string, nat) sharing_mapt" where
  "map_K = insert_sm (\<lambda>_. 0) 100 ''k'' 5 new_sm"

section \<open>Properties\<close>

lemma mask_eq: "mask_sm = 7"
  by (simp add: mask_sm_def chunk_def)

lemma levels_eq: "levels = 10"
  by (simp add: levels_def bits_def chunk_def)

text \<open>
  C8: with \<open>bits = 30\<close> and \<open>chunk = 3\<close> the mask, computed as
  \<open>0xffff >> (16 - chunk)\<close>, is \<open>2 ^ chunk - 1 = 7\<close>, and the height is
  \<open>bits / chunk = 10\<close>.
\<close>

theorem C8_derived_constants:
  "bits = 30 \<and> chunk = 3 \<and> mask_sm = 2 ^ chunk - 1 \<and> mask_sm = 7
   \<and> levels = bits div chunk \<and> levels = 10"
  by (simp add: mask_sm_def chunk_def levels_def bits_def)

text \<open>
  C9: \<open>has_key(k)\<close> is true iff \<open>find(k)\<close> returns a value; both read the same
  \<open>get_leaf_node(k)\<close>, and where that aborts in a build with internal checks, both abort.
\<close>

theorem C9_has_key_iff_find:
  "((has_key chk hash sm k = Inr True) = (\<exists>v. find_sm chk hash sm k = Inr (Some v)))
   \<and> ((has_key chk hash sm k = Inr False) = (find_sm chk hash sm k = Inr None))
   \<and> ((has_key chk hash sm k = Inl e) = (find_sm chk hash sm k = Inl e))"
  by (auto simp: has_key_def find_sm_def split: sum.splits option.splits)

text \<open>
  C10: after \<open>clear()\<close> the size is 0, \<open>empty()\<close> is true and \<open>find(k)\<close> is absent for
  every key; and for every map \<open>empty()\<close> is true iff \<open>size()\<close> is 0.
\<close>

theorem C10_clear:
  "size_sm (clear sm) = 0 \<and> empty_sm (clear sm) \<and> find_sm chk hash (clear sm) k = Inr None
   \<and> (empty_sm sm' = (size_sm sm' = 0))"
  by (simp add: clear_def size_sm_def empty_sm_def find_sm_def get_leaf_node_def
      get_container_node_const_def)

text \<open>
  C2: the delta view of a map against its copy is empty, for either value of
  \<open>only_common\<close>.
\<close>

theorem C2_delta_view_of_clone:
  "get_delta_view chk hash sm (clone sm) [] only_common = Inr []"
  by (simp add: get_delta_view_def clone_def shares_with_def sm_assert_fails_def)

lemma sm_assert_fails_False [simp]: "sm_assert_fails False b = False"
  by (simp add: sm_assert_fails_def)

lemma iterate_loop_prefix:
  "iterate_loop chk st (pre @ acc) =
     (case iterate_loop chk st acc of Inl e \<Rightarrow> Inl e | Inr r \<Rightarrow> Inr (pre @ r))"
  by (induction chk st acc rule: iterate_loop.induct) (auto simp: iterate_loop.simps)

lemma iterate_loop_default: "\<exists>r. iterate_loop False st acc = Inr r"
  by (induction "False" st acc rule: iterate_loop.induct) (auto simp: iterate_loop.simps)

lemma gather_all_prefix:
  "gather_all chk n (pre @ dv) =
     (case gather_all chk n dv of Inl e \<Rightarrow> Inl e | Inr r \<Rightarrow> Inr (pre @ r))"
  by (simp add: gather_all_def split: sum.splits)

lemma gather_all_default: "\<exists>r. gather_all False n dv = Inr r"
  using iterate_loop_default[of "[n]" "[]"]
  by (auto simp: gather_all_def iterate_def)

lemma add_item_scan_prefix: "add_item_scan l1 ll (pre @ dv) = pre @ add_item_scan l1 ll dv"
  by (induction ll) auto

lemma add_item_loop_prefix:
  "add_item_loop chk l1 c ip key (pre @ dv) oc =
     (case add_item_loop chk l1 c ip key dv oc of Inl e \<Rightarrow> Inl e | Inr r \<Rightarrow> Inr (pre @ r))"
  by (induction chk l1 c ip key dv oc rule: add_item_loop.induct)
     (subst (1 2) add_item_loop.simps, auto split: option.splits simp: add_item_scan_prefix)

lemma add_item_loop_default: "\<exists>r. add_item_loop False l1 c ip key dv oc = Inr r"
  by (induction "False" l1 c ip key dv oc rule: add_item_loop.induct)
     (subst add_item_loop.simps, auto split: option.splits)

lemma add_item_if_not_shared_prefix:
  "add_item_if_not_shared chk hash c inner level (pre @ dv) oc =
     (case add_item_if_not_shared chk hash c inner level dv oc of
        Inl e \<Rightarrow> Inl e | Inr r \<Rightarrow> Inr (pre @ r))"
  by (auto simp: add_item_if_not_shared_def add_item_loop_prefix split: list.splits)

lemma add_item_if_not_shared_default:
  "\<exists>r. add_item_if_not_shared False hash c inner level dv oc = Inr r"
  by (auto simp: add_item_if_not_shared_def add_item_loop_default split: list.splits)

lemma delta_children_prefix:
  "delta_children chk oc ip2 level items stack (pre @ dv) =
     (case delta_children chk oc ip2 level items stack dv of
        Inl e \<Rightarrow> Inl e | Inr (st, r) \<Rightarrow> Inr (st, pre @ r))"
proof (induction items arbitrary: stack dv)
  case Nil
  then show ?case by simp
next
  case (Cons item items)
  show ?case
  proof (cases "find_child ip2 (fst item)")
    case None
    show ?thesis
    proof (cases "gather_all chk (snd item) dv")
      case (Inl e)
      then show ?thesis using None Cons[of stack dv]
        by (cases oc) (simp_all add: gather_all_prefix)
    next
      case (Inr dv')
      then show ?thesis using None Cons[of stack dv] Cons[of stack dv']
        by (cases oc) (simp_all add: gather_all_prefix)
    qed
  next
    case (Some p)
    then show ?thesis
      using Cons[of stack dv] Cons[of "(snd item, p, level + 1) # stack" dv]
      by (cases oc) simp_all
  qed
qed

lemma delta_children_default:
  "\<exists>r. delta_children False oc ip2 level items stack dv = Inr r"
proof (induction "False" oc ip2 level items stack dv rule: delta_children.induct)
  case (1 only_common ip2 level stack delta_view)
  then show ?case by simp
next
  case (2 only_common ip2 level item items stack delta_view)
  then show ?case
    using gather_all_default[of "snd item" delta_view]
    by (auto split: option.splits sum.splits)
qed

lemma delta_leaves_prefix:
  "delta_leaves chk hash other oc ip2 ll (pre @ dv) =
     (case delta_leaves chk hash other oc ip2 ll dv of
        Inl e \<Rightarrow> Inl e | Inr r \<Rightarrow> Inr (pre @ r))"
proof (induction ll arbitrary: dv)
  case Nil
  then show ?case by simp
next
  case (Cons l1 ll)
  show ?case
  proof (cases "find_leaf ip2 (get_key l1)")
    case None
    then show ?thesis
      using Cons[of "dv @ [Delta_item (get_key l1) (get_value l1) None]"] Cons[of dv]
      by (cases oc) simp_all
  next
    case (Some p)
    then show ?thesis
      using Cons[of "dv @ [Delta_item (get_key l1) (get_value l1) (Some (get_value p))]"]
        Cons[of dv]
      by (cases oc) simp_all
  qed
qed

lemma delta_leaves_default: "\<exists>r. delta_leaves False hash other oc ip2 ll dv = Inr r"
  by (induction "False" hash other oc ip2 ll dv rule: delta_leaves.induct)
     (auto split: option.splits)

lemma delta_loop_prefix:
  "delta_loop chk hash other oc stack (pre @ dv) =
     (case delta_loop chk hash other oc stack dv of Inl e \<Rightarrow> Inl e | Inr r \<Rightarrow> Inr (pre @ r))"
proof (induction chk hash other oc stack dv rule: delta_loop.induct)
  case (1 chk hash other only_common delta_view)
  then show ?case by (simp add: delta_loop.simps)
next
  case (2 chk hash other only_common ip1 ip2 level stack delta_view)
  show ?case
    apply (subst (1 2) delta_loop.simps)
    using 2
    by (auto simp: delta_children_prefix add_item_if_not_shared_prefix delta_leaves_prefix
        split: sum.splits prod.splits)
qed

lemma delta_loop_default: "\<exists>r. delta_loop False hash other oc stack dv = Inr r"
proof (induction "False" hash other oc stack dv rule: delta_loop.induct)
  case (1 hash other only_common delta_view)
  then show ?case by (simp add: delta_loop.simps)
next
  case (2 hash other only_common ip1 ip2 level stack delta_view)
  show ?case
    using 2 delta_children_default[of only_common ip2 level "get_to_map ip1" stack delta_view]
      add_item_if_not_shared_default[of hash ip1 ip2 level delta_view only_common]
      delta_leaves_default[of hash other only_common ip2 "get_container ip1" delta_view]
    apply (subst delta_loop.simps)
    by (auto split: sum.splits prod.splits)
qed

lemma get_view_prefix:
  "get_view False sm (pre @ view) =
     (case get_view False sm view of Inl e \<Rightarrow> Inl e | Inr r \<Rightarrow> Inr (pre @ r))"
  by (simp add: get_view_def split: sum.splits)

lemma get_view_default: "\<exists>r. get_view False sm view = Inr r"
  using iterate_loop_default[of "[map_sm sm]" "[]"]
  by (auto simp: get_view_def iterate_def)

lemma get_delta_view_prefix:
  "get_delta_view False hash sm other (pre @ dv) oc =
     (case get_delta_view False hash sm other dv oc of Inl e \<Rightarrow> Inl e | Inr r \<Rightarrow> Inr (pre @ r))"
  by (simp add: get_delta_view_def gather_all_prefix delta_loop_prefix)

lemma get_delta_view_default: "\<exists>r. get_delta_view False hash sm other dv oc = Inr r"
  by (simp add: get_delta_view_def gather_all_default delta_loop_default)

text \<open>
  C7, as amended: a non-empty output sequence is reported as a violated invariant only
  in a build with \<open>SM_INTERNAL_CHECKS\<close>; in the default build \<open>get_view\<close> and
  \<open>get_delta_view\<close> append their items to the sequence and report nothing.
\<close>

theorem C7_view_buffer:
  "get_view True sm (x # view) = Inl Internal_invariant_violation
   \<and> get_delta_view True hash sm other (d # delta_view) only_common
       = Inl Internal_invariant_violation
   \<and> (\<exists>items. get_view False sm [] = Inr items
         \<and> get_view False sm (x # view) = Inr ((x # view) @ items))
   \<and> (\<exists>items. get_delta_view False hash sm other [] only_common = Inr items
         \<and> get_delta_view False hash sm other (d # delta_view) only_common
             = Inr ((d # delta_view) @ items))"
proof -
  obtain r where r: "get_view False sm [] = Inr r"
    using get_view_default by blast
  obtain r' where r': "get_delta_view False hash sm other [] only_common = Inr r'"
    using get_delta_view_default by blast
  have a: "get_view False sm (x # view) = Inr ((x # view) @ r)"
    using get_view_prefix[of sm "x # view" "[]"] r by simp
  have b: "get_delta_view False hash sm other (d # delta_view) only_common
             = Inr ((d # delta_view) @ r')"
    using get_delta_view_prefix[of hash sm other "d # delta_view" "[]" only_common] r' by simp
  show ?thesis
    using a b r r' by (simp add: get_view_def get_delta_view_def sm_assert_fails_def)
qed

subsection \<open>Lookup on a trie with the invariant\<close>

lemma inv_node_Internal:
  "inv_node hash d (Internal a m) = (d < levels \<and> m \<noteq> [] \<and> inv_children hash d m)"
  by (simp add: inv_children_def)

lemma sorted_wrt_less_distinct: "sorted_wrt (<) (xs :: size_t list) \<Longrightarrow> distinct xs"
  by (induction xs) auto

lemma inv_children_distinct: "inv_children hash d m \<Longrightarrow> distinct (map fst m)"
  by (simp add: inv_children_def sorted_wrt_less_distinct)

lemma suffix_step: "drop_bit chunk (drop_bit (chunk * d) w) = drop_bit (chunk * Suc d) (w :: size_t)"
  by (simp add: drop_bit_drop_bit add.commute)

lemma find_eq_filter:
  "List.find P xs = (case filter P xs of [] \<Rightarrow> None | x # _ \<Rightarrow> Some x)"
  by (induction xs) auto

lemma concat_only_child:
  "distinct (map fst m) \<Longrightarrow> (i, c) \<in> set m
     \<Longrightarrow> (\<forall>x \<in> set m. fst x \<noteq> i \<longrightarrow> f x = [])
     \<Longrightarrow> concat (map f (rev m)) = f (i, c)"
proof (induction m)
  case Nil
  then show ?case by simp
next
  case (Cons x m)
  show ?case
  proof (cases "x = (i, c)")
    case True
    then have "\<forall>y \<in> set m. f y = []"
      using Cons.prems by force
    then have "concat (map f (rev m)) = []" by simp
    then show ?thesis using True by simp
  next
    case False
    then have "(i, c) \<in> set m" using Cons.prems by simp
    moreover have "i \<in> fst ` set m" using \<open>(i, c) \<in> set m\<close> by force
    then have "fst x \<noteq> i" using Cons.prems(1) by auto
    ultimately show ?thesis using Cons by simp
  qed
qed

lemma concat_no_child:
  "(\<forall>x \<in> set m. f x = []) \<Longrightarrow> concat (map f (rev m)) = []"
  by simp

lemma with_key_leaves_Internal:
  "with_key k (concat (map (\<lambda>x. leaves (snd x)) (rev m)))
     = concat (map (\<lambda>x. with_key k (leaves (snd x))) (rev m))"
  by (simp add: with_key_def filter_concat o_def)

lemma other_children_free:
  assumes "inv_children hash d m" "x \<in> set m" "fst x \<noteq> chunk_at hash k d"
  shows "with_key k (leaves (snd x)) = []"
  using assms by (auto simp: inv_children_def with_key_def filter_empty_conv)

lemma with_key_child:
  assumes "inv_children hash d m" "map_of m (chunk_at hash k d) = Some c"
  shows "with_key k (leaves (Internal a m)) = with_key k (leaves c)"
proof -
  have "(chunk_at hash k d, c) \<in> set m" using assms(2) by (rule map_of_SomeD)
  then show ?thesis
    using concat_only_child[of m "chunk_at hash k d" c "\<lambda>x. with_key k (leaves (snd x))"]
      inv_children_distinct[OF assms(1)] other_children_free[OF assms(1)]
    by (simp add: with_key_leaves_Internal)
qed

lemma with_key_no_child:
  assumes "inv_children hash d m" "map_of m (chunk_at hash k d) = None"
  shows "with_key k (leaves (Internal a m)) = []"
proof -
  have "\<forall>x \<in> set m. fst x \<noteq> chunk_at hash k d"
    using assms(2) by (metis map_of_eq_None_iff image_eqI)
  then show ?thesis
    using other_children_free[OF assms(1)] by (simp add: with_key_leaves_Internal)
qed

lemma find_leaf_with_key:
  "find_leaf c k = (case with_key k (get_container c) of [] \<Rightarrow> None | l # _ \<Rightarrow> Some l)"
  by (simp add: find_leaf_def with_key_def find_eq_filter)

lemma inv_children_child:
  "inv_children hash d m \<Longrightarrow> map_of m i = Some c \<Longrightarrow> inv_node hash (Suc d) c"
  by (force simp: inv_children_def dest: map_of_SomeD)

lemma inv_node_not_empty: "inv_node hash d n \<Longrightarrow> \<not> is_empty n"
  by (cases n) auto

lemma lookup_leaves:
  "inv_children hash d m \<Longrightarrow>
     lookup chk (Internal a m) (drop_bit (chunk * d) (hash k)) k
       = Inr (case with_key k (leaves (Internal a m)) of [] \<Rightarrow> None | l # _ \<Rightarrow> Some l)"
proof (induction m arbitrary: a d rule: measure_induct_rule[where f = "\<lambda>m. size_list (size_prod (\<lambda>_. 0) size) m"])
  case (less m)
  let ?i = "chunk_at hash k d"
  show ?case
  proof (cases "map_of m ?i")
    case None
    then show ?thesis
      using with_key_no_child[OF less.prems None, of a]
      by (simp add: lookup_def get_container_node_loop.simps[of chk "Internal a m"]
          find_child_def chunk_at_def)
  next
    case (Some c)
    have inv_c: "inv_node hash (Suc d) c" using inv_children_child[OF less.prems Some] .
    have wk: "with_key k (leaves (Internal a m)) = with_key k (leaves c)"
      using with_key_child[OF less.prems Some] .
    show ?thesis
    proof (cases c)
      case Empty
      then show ?thesis using inv_c by simp
    next
      case (Container ca ll)
      then show ?thesis
        using Some wk
        by (simp add: lookup_def get_container_node_loop.simps[of chk "Internal a m"]
            find_child_def chunk_at_def sm_assert_fails_def find_leaf_with_key)
    next
      case (Internal ca cm)
      have "size_list (size_prod (\<lambda>_. 0) size) cm < size_list (size_prod (\<lambda>_. 0) size) m"
        using size_map_of_child[OF Some] Internal by simp
      moreover have "inv_children hash (Suc d) cm"
        using inv_c Internal by (simp add: inv_children_def)
      ultimately have "lookup chk (Internal ca cm) (drop_bit (chunk * Suc d) (hash k)) k
          = Inr (case with_key k (leaves (Internal ca cm)) of [] \<Rightarrow> None | l # _ \<Rightarrow> Some l)"
        using less.IH by blast
      then show ?thesis
        using Some wk Internal
        by (simp add: lookup_def get_container_node_loop.simps[of chk "Internal a m"]
            find_child_def chunk_at_def sm_assert_fails_def suffix_step)
    qed
  qed
qed

lemma find_sm_leaves:
  assumes "inv_sm hash sm"
  shows "find_sm chk hash sm k
           = Inr (case with_key k (leaves (map_sm sm)) of [] \<Rightarrow> None | l # _ \<Rightarrow> Some (get_value l))"
proof (cases "map_sm sm")
  case Empty
  then show ?thesis
    using assms
    by (simp add: inv_sm_def find_sm_def get_leaf_node_def get_container_node_const_def
        empty_sm_def with_key_def unat_eq_0)
next
  case (Internal a m)
  show ?thesis
  proof (cases "num sm = 0")
    case True
    then have "leaves (map_sm sm) = []" using assms by (simp add: inv_sm_def)
    then show ?thesis
      using True
      by (simp add: find_sm_def get_leaf_node_def get_container_node_const_def empty_sm_def
          with_key_def)
  next
    case False
    have "inv_children hash 0 m" using assms Internal by (simp add: inv_sm_def inv_root_def)
    from lookup_leaves[OF this, of chk a k]
    show ?thesis
      using False Internal
      by (auto simp: find_sm_def get_leaf_node_def get_container_node_const_def empty_sm_def
          lookup_def is_defined_internal_def sm_assert_fails_def
          split: sum.splits option.splits list.splits)
  qed
next
  case (Container a ll)
  then show ?thesis using assms by (simp add: inv_sm_def inv_root_def)
qed

subsection \<open>Facts about the child mapping\<close>

lemma map_of_to_map_set:
  "map_of (to_map_set i c m) j = (if j = i then map_option (\<lambda>_. c) (map_of m i) else map_of m j)"
  by (induction m) (auto simp: to_map_set_def)

lemma map_fst_to_map_set [simp]: "map fst (to_map_set i c m) = map fst m"
  by (induction m) (auto simp: to_map_set_def)

lemma to_map_set_twice [simp]: "to_map_set i c (to_map_set i c' m) = to_map_set i c m"
  by (induction m) (auto simp: to_map_set_def)

lemma to_map_set_Nil [simp]: "to_map_set i c [] = []"
  by (simp add: to_map_set_def)

lemma set_to_map_insert [simp]: "set (to_map_insert i c m) = insert (i, c) (set m)"
  by (induction m) auto

lemma sorted_to_map_insert:
  "sorted_wrt (<) (map fst m) \<Longrightarrow> i \<notin> fst ` set m
     \<Longrightarrow> sorted_wrt (<) (map fst (to_map_insert i c m))"
  by (induction m) (auto simp: not_less order_less_le)

lemma to_map_set_absent: "i \<notin> fst ` set m \<Longrightarrow> to_map_set i c m = m"
  by (induction m) (auto simp: to_map_set_def)

lemma filter_absent: "i \<notin> fst ` set m \<Longrightarrow> filter (\<lambda>x. fst x \<noteq> i) m = m"
  by (induction m) auto

lemma to_map_set_insert:
  "i \<notin> fst ` set m \<Longrightarrow> to_map_set i c (to_map_insert i c' m) = to_map_insert i c m"
proof (induction m)
  case Nil
  then show ?case by (simp add: to_map_set_def)
next
  case (Cons x m)
  then show ?case
    using to_map_set_absent[of i m c]
    by (auto simp: to_map_set_def)
qed

lemma to_map_insert_filter:
  "sorted_wrt (<) (map fst m) \<Longrightarrow> i \<in> fst ` set m
     \<Longrightarrow> to_map_insert i c (filter (\<lambda>x. fst x \<noteq> i) m) = to_map_set i c m"
proof (induction m)
  case Nil
  then show ?case by simp
next
  case (Cons x m)
  show ?case
  proof (cases "fst x = i")
    case True
    then have "\<forall>y \<in> set m. i < fst y" using Cons.prems(1) by auto
    then have "filter (\<lambda>x. fst x \<noteq> i) m = m \<and> to_map_set i c m = m"
      by (induction m) (auto simp: to_map_set_def)
    then show ?thesis using True \<open>\<forall>y \<in> set m. i < fst y\<close>
      by (cases m) (auto simp: to_map_set_def)
  next
    case False
    then have "i \<in> fst ` set m" using Cons.prems(2) by auto
    then have "fst x < i" using Cons.prems(1) by auto
    then show ?thesis using Cons False \<open>i \<in> fst ` set m\<close>
      by (auto simp: to_map_set_def)
  qed
qed

lemma filter_to_map_insert:
  "i \<notin> fst ` set m \<Longrightarrow> filter (\<lambda>x. fst x \<noteq> i) (to_map_insert i c m) = m"
proof (induction m)
  case Nil
  then show ?case by simp
next
  case (Cons x m)
  then show ?case
    using filter_absent[of i m] by auto
qed

lemma concat_to_map_insert:
  "g (i, c) = [] \<Longrightarrow> concat (map g (rev (to_map_insert i c m))) = concat (map g (rev m))"
  by (induction m) auto

lemma concat_to_map_set:
  "concat (map g (rev (to_map_set i c m)))
     = concat (map (\<lambda>x. if fst x = i then g (i, c) else g x) (rev m))"
  by (simp add: to_map_set_def rev_map o_def if_distrib cong: if_cong)

lemma map_of_unique:
  "distinct (map fst m) \<Longrightarrow> map_of m i = Some c \<Longrightarrow> x \<in> set m \<Longrightarrow> fst x = i \<Longrightarrow> snd x = c"
  by (metis map_of_is_SomeI option.inject prod.collapse)

subsection \<open>Writing a child\<close>

lemma without_key_id: "with_key k ll = [] \<Longrightarrow> without_key k ll = ll"
  by (induction ll) (auto simp: with_key_def without_key_def split: if_splits)

lemma set_with_without: "set ll = set (with_key k ll) \<union> set (without_key k ll)"
  by (auto simp: with_key_def without_key_def)

lemma without_key_concat:
  "without_key k (concat (map (\<lambda>x. leaves (snd x)) (rev m)))
     = concat (map (\<lambda>x. without_key k (leaves (snd x))) (rev m))"
  by (simp add: without_key_def filter_concat o_def)

lemma set_to_map_set:
  "x \<in> set (to_map_set i c m) \<Longrightarrow> x = (i, c) \<or> (x \<in> set m \<and> fst x \<noteq> i)"
  by (auto simp: to_map_set_def split: if_splits)

lemma set_child_ok:
  assumes inv: "inv_children hash d m"
    and mo: "map_of m (chunk_at hash k d) = Some c"
    and invc: "inv_node hash (Suc d) c'"
    and wo: "without_key k (leaves c') = leaves c"
    and wk: "with_key k (leaves c') = [nl]"
    and nl: "get_key nl = k"
  shows "inv_children hash d (to_map_set (chunk_at hash k d) c' m)
    \<and> without_key k (leaves (Internal a (to_map_set (chunk_at hash k d) c' m)))
        = leaves (Internal a' m)
    \<and> with_key k (leaves (Internal a (to_map_set (chunk_at hash k d) c' m))) = [nl]"
proof -
  let ?i = "chunk_at hash k d"
  let ?m' = "to_map_set ?i c' m"
  have ic: "(?i, c) \<in> set m" using mo by (rule map_of_SomeD)
  have chunk_c': "\<forall>l \<in> set (leaves c'). chunk_at hash (get_key l) d = ?i"
  proof
    fix l assume "l \<in> set (leaves c')"
    then consider "l \<in> set (with_key k (leaves c'))" | "l \<in> set (without_key k (leaves c'))"
      using set_with_without[of "leaves c'" k] by auto
    then show "chunk_at hash (get_key l) d = ?i"
    proof cases
      case 1
      then show ?thesis using wk nl by simp
    next
      case 2
      then have "l \<in> set (leaves c)" using wo by simp
      then show ?thesis using inv ic by (force simp: inv_children_def)
    qed
  qed
  have inv': "inv_children hash d ?m'"
    unfolding inv_children_def
  proof (intro conjI ballI)
    show "sorted_wrt (<) (map fst ?m')" using inv by (simp add: inv_children_def)
  next
    fix x assume "x \<in> set ?m'"
    then show "inv_node hash (Suc d) (snd x)"
      using set_to_map_set[of x ?i c' m] invc inv by (auto simp: inv_children_def)
  next
    fix x l assume "x \<in> set ?m'" "l \<in> set (leaves (snd x))"
    then show "chunk_at hash (get_key l) d = fst x"
      using set_to_map_set[of x ?i c' m] chunk_c' inv by (auto simp: inv_children_def)
  qed
  have mo': "map_of ?m' ?i = Some c'" using mo by (simp add: map_of_to_map_set)
  have "concat (map (\<lambda>x. if fst x = ?i then without_key k (leaves (snd (?i, c')))
                       else without_key k (leaves (snd x))) (rev m))
        = concat (map (\<lambda>x. leaves (snd x)) (rev m))"
  proof (rule arg_cong[where f = concat], rule map_cong, simp)
    fix x assume "x \<in> set (rev m)"
    then have x: "x \<in> set m" by simp
    show "(if fst x = ?i then without_key k (leaves (snd (?i, c')))
           else without_key k (leaves (snd x))) = leaves (snd x)"
    proof (cases "fst x = ?i")
      case True
      then have "snd x = c" using map_of_unique[OF inv_children_distinct[OF inv] mo x] by simp
      then show ?thesis using True wo by simp
    next
      case False
      then show ?thesis using other_children_free[OF inv x False] by (simp add: without_key_id)
    qed
  qed
  then have "without_key k (leaves (Internal a ?m')) = leaves (Internal a' m)"
    using concat_to_map_set[of "\<lambda>x. without_key k (leaves (snd x))" ?i c' m]
    by (simp add: without_key_concat)
  moreover have "with_key k (leaves (Internal a ?m')) = [nl]"
    using with_key_child[OF inv' mo', of a] wk by simp
  ultimately show ?thesis using inv' by blast
qed

lemma ins_child_ok:
  assumes inv: "inv_children hash d m"
    and mo: "map_of m (chunk_at hash k d) = None"
    and nl: "get_key nl = k"
    and d: "Suc d \<le> levels"
  shows "inv_children hash d (to_map_insert (chunk_at hash k d) (Container ca [nl]) m)
    \<and> without_key k (leaves (Internal a (to_map_insert (chunk_at hash k d) (Container ca [nl]) m)))
        = leaves (Internal a' m)
    \<and> with_key k (leaves (Internal a (to_map_insert (chunk_at hash k d) (Container ca [nl]) m)))
        = [nl]"
proof -
  let ?i = "chunk_at hash k d"
  let ?m' = "to_map_insert ?i (Container ca [nl]) m"
  have notin: "?i \<notin> fst ` set m" using mo by (simp add: map_of_eq_None_iff)
  have inv': "inv_children hash d ?m'"
    using inv nl d sorted_to_map_insert[OF _ notin]
    by (auto simp: inv_children_def)
  have mo': "map_of ?m' ?i = Some (Container ca [nl])"
    using inv' by (intro map_of_is_SomeI) (auto simp: inv_children_distinct)
  have "concat (map (\<lambda>x. without_key k (leaves (snd x))) (rev m))
        = concat (map (\<lambda>x. leaves (snd x)) (rev m))"
  proof (rule arg_cong[where f = concat], rule map_cong, simp)
    fix x assume "x \<in> set (rev m)"
    then have x: "x \<in> set m" by simp
    then have "fst x \<noteq> ?i" using notin by (metis imageI)
    then show "without_key k (leaves (snd x)) = leaves (snd x)"
      using other_children_free[OF inv x] by (simp add: without_key_id)
  qed
  moreover have "without_key k (leaves (snd (?i, Container ca [nl]))) = []"
    using nl by (simp add: without_key_def)
  ultimately have "without_key k (leaves (Internal a ?m')) = leaves (Internal a' m)"
    using concat_to_map_insert[of "\<lambda>x. without_key k (leaves (snd x))" ?i "Container ca [nl]" m]
    by (simp add: without_key_concat)
  moreover have "with_key k (leaves (Internal a ?m')) = [nl]"
    using with_key_child[OF inv' mo', of a] nl by (simp add: with_key_def)
  ultimately show ?thesis using inv' by blast
qed

subsection \<open>Insert keeps the invariant\<close>

lemma chunk_at_suffix: "drop_bit (chunk * d) (hash k) AND mask_sm = chunk_at hash k d"
  by (simp add: chunk_at_def)

lemma inv_single_child:
  assumes "inv_node hash (Suc d) c" "\<forall>l \<in> set (leaves c). chunk_at hash (get_key l) d = i"
  shows "inv_children hash d [(i, c)]"
  using assms by (simp add: inv_children_def)

lemma to_map_insert_not_Nil [simp]: "to_map_insert i c m \<noteq> []"
  by (cases m) auto

lemma to_map_set_eq_Nil [simp]: "(to_map_set i c m = []) = (m = [])"
  by (simp add: to_map_set_def)

lemma leaves_single: "leaves (Internal a [(i, c)]) = leaves c"
  by simp

lemma leaves_Container: "leaves (Container a ll) = ll"
  by simp

lemma migrate_loop_ok:
  assumes "migrate_loop al (Container ca [e]) level key key_existing = (sub, cp)"
    and "level < levels" and "get_key e \<noteq> k"
    and "key = drop_bit (chunk * level) (hash k)"
    and "key_existing = drop_bit (chunk * level) (hash (get_key e))"
  shows "inv_node hash level (update_at cp (\<lambda>n. place_leaf a' la n k v) sub)
    \<and> without_key k (leaves (update_at cp (\<lambda>n. place_leaf a' la n k v) sub)) = [e]
    \<and> with_key k (leaves (update_at cp (\<lambda>n. place_leaf a' la n k v) sub)) = [Leaf la k v]"
  using assms
proof (induction al "Container ca [e]" level key key_existing arbitrary: sub cp
    rule: migrate_loop.induct)
  case (1 al level key key_existing)
  let ?f = "\<lambda>n. place_leaf a' la n k v"
  let ?bit = "chunk_at hash k level"
  let ?be = "chunk_at hash (get_key e) level"
  have bits: "key AND mask_sm = ?bit" "key_existing AND mask_sm = ?be"
    using "1.prems" by (simp_all add: chunk_at_def)
  note ml = "1.prems"(1)[unfolded migrate_loop.simps[of al "Container ca [e]" level key key_existing]
      Let_def bits]
  show ?case
  proof (cases "?bit = ?be")
    case False
    then have sub: "sub = Internal (al + level) (to_map_insert ?bit Empty [(?be, Container ca [e])])"
      and cp: "cp = [?bit]"
      using ml by (auto simp: add_child_def put_child_def find_child_def to_map_set_def)
    have inv0: "inv_children hash level [(?be, Container ca [e])]"
      using "1.prems"(2) by (intro inv_single_child) auto
    have mo: "map_of [(?be, Container ca [e])] ?bit = None" using False by simp
    have upd: "update_at cp ?f sub
        = Internal (al + level) (to_map_insert ?bit (Container a' [Leaf la k v]) [(?be, Container ca [e])])"
      using False sub cp
      by (auto simp: put_child_def child_of_def find_child_def place_leaf_def to_map_set_def)
    show ?thesis
      using ins_child_ok[OF inv0 mo, of "Leaf la k v" a' "al + level" undefined] "1.prems"(2)
      unfolding upd
      by (simp add: inv_node_Internal leaves_single leaves_Container
          del: inv_node.simps(3) to_map_insert.simps leaves.simps)
  next
    case True
    note same = True
    show ?thesis
    proof (cases "level + 1 < levels")
      case True
      obtain sub0 cp0 where rec: "migrate_loop al (Container ca [e]) (level + 1)
          (drop_bit chunk key) (drop_bit chunk key_existing) = (sub0, cp0)"
        by fastforce
      have sub: "sub = Internal (al + level) [(?bit, sub0)]" and cp: "cp = ?bit # cp0"
        using ml same True rec
        by (auto simp: add_child_def put_child_def find_child_def to_map_set_def)
      have IH: "inv_node hash (level + 1) (update_at cp0 ?f sub0)
          \<and> without_key k (leaves (update_at cp0 ?f sub0)) = [e]
          \<and> with_key k (leaves (update_at cp0 ?f sub0)) = [Leaf la k v]"
        using "1.hyps"[OF refl refl _ True rec True "1.prems"(3)] same bits "1.prems"(4,5)
        by (simp add: suffix_step)
      have upd: "update_at cp ?f sub = Internal (al + level) [(?bit, update_at cp0 ?f sub0)]"
        using sub cp by (simp add: put_child_def child_of_def find_child_def to_map_set_def)
      have mo: "map_of [(?bit, Container ca [e])] (chunk_at hash k level) = Some (Container ca [e])"
        by simp
      have inv0: "inv_children hash level [(?bit, Container ca [e])]"
        using "1.prems"(2) same by (intro inv_single_child) auto
      show ?thesis
        using set_child_ok[OF inv0 mo, of "update_at cp0 ?f sub0" "Leaf la k v" "al + level" undefined]
          IH "1.prems"(2)
        unfolding upd
        by (simp add: inv_node_Internal to_map_set_def leaves_single leaves_Container
            del: inv_node.simps(3) leaves.simps)
    next
      case False
      then have sub: "sub = Internal (al + level) [(?bit, Container (al + level + 1) [e])]"
        and cp: "cp = [?bit]"
        using ml same
        by (auto simp: add_child_def put_child_def find_child_def to_map_set_def)
      have upd: "update_at cp ?f sub
          = Internal (al + level) [(?bit, Container a' [Leaf la k v, e])]"
        using sub cp
        by (simp add: put_child_def child_of_def find_child_def to_map_set_def place_leaf_def)
      show ?thesis
        using "1.prems"(2,3) False same
        unfolding upd
        by (auto simp: with_key_def without_key_def)
    qed
  qed
qed

lemma migrate_ok:
  assumes inv: "inv_children hash d m"
    and mo: "map_of m (chunk_at hash k d) = Some (Container ca [e])"
    and d: "Suc d < levels" and ne: "get_key e \<noteq> k"
    and mig: "migrate hash al d (drop_bit (chunk * d) (hash k)) (chunk_at hash k d)
                (Internal a0 m) = (inner, cp)"
  shows "\<exists>c'. update_at cp (\<lambda>n. place_leaf a' la n k v) inner
            = Internal (al + d) (to_map_set (chunk_at hash k d) c' m)
          \<and> inv_node hash (Suc d) c'
          \<and> without_key k (leaves c') = [e]
          \<and> with_key k (leaves c') = [Leaf la k v]"
proof -
  let ?i = "chunk_at hash k d"
  let ?f = "\<lambda>n. place_leaf a' la n k v"
  obtain sub cp0 where ml: "migrate_loop al (Container ca [e]) (Suc d)
      (drop_bit chunk (drop_bit (chunk * d) (hash k)))
      (drop_bit chunk (drop_bit (chunk * d) (hash (get_key e)))) = (sub, cp0)"
    by fastforce
  have iin: "?i \<in> fst ` set m" using mo by (metis map_of_eq_None_iff option.distinct(1))
  have srt: "sorted_wrt (<) (map fst m)" using inv by (simp add: inv_children_def)
  have notin: "?i \<notin> fst ` set (filter (\<lambda>x. fst x \<noteq> ?i) m)" by auto
  have "inner = Internal (al + d) (to_map_set ?i sub m)" and cp: "cp = ?i # cp0"
    using mig ml mo to_map_insert_filter[OF srt iin, of Empty] notin
    by (auto simp: migrate_def child_of_def find_child_def Let_def remove_child_def add_child_def
        put_child_def map_of_eq_None_iff simp del: to_map_insert.simps)
  then have upd: "update_at cp ?f inner = Internal (al + d) (to_map_set ?i (update_at cp0 ?f sub) m)"
    using mo
    by (simp add: put_child_def child_of_def find_child_def map_of_to_map_set)
  show ?thesis
    using migrate_loop_ok[OF ml d ne, of hash a' la v] upd
    by (intro exI[of _ "update_at cp0 ?f sub"]) (simp add: suffix_step)
qed

lemma insert_loop_ok:
  assumes "inv_children hash d m" "d < levels" "with_key k (leaves (Internal a m)) = []"
  shows "\<exists>m'. insert_loop hash al k v (Internal a m) (drop_bit (chunk * d) (hash k)) d
               = Internal (al + d) m'
          \<and> m' \<noteq> [] \<and> inv_children hash d m'
          \<and> without_key k (leaves (Internal a' m')) = leaves (Internal a m)
          \<and> with_key k (leaves (Internal a' m')) = [Leaf (al + levels + 1) k v]"
  using assms
proof (induction m arbitrary: a a' d
    rule: measure_induct_rule[where f = "\<lambda>m. size_list (size_prod (\<lambda>_. 0) size) m"])
  case (less m)
  let ?i = "chunk_at hash k d"
  let ?key = "drop_bit (chunk * d) (hash k)"
  let ?nl = "Leaf (al + levels + 1) k v"
  note inv = less.prems(1)
  note unf = insert_loop.simps[of hash al k v "Internal a m" ?key d] Let_def chunk_at_suffix
  show ?case
  proof (cases "map_of m ?i")
    case None
    then have notin: "?i \<notin> fst ` set m" by (simp add: map_of_eq_None_iff)
    have "insert_loop hash al k v (Internal a m) ?key d
        = Internal (al + d) (to_map_insert ?i (Container (al + d + 1) [?nl]) m)"
      using None to_map_set_insert[OF notin]
      by (simp add: unf child_of_def find_child_def add_child_def put_child_def place_leaf_def
          del: to_map_insert.simps)
    then show ?thesis
      using ins_child_ok[OF inv None, of ?nl "al + d + 1" a' a] less.prems(2)
      by (simp del: to_map_insert.simps leaves.simps)
  next
    case (Some c)
    have inv_c: "inv_node hash (Suc d) c" using inv_children_child[OF inv Some] .
    have wk: "with_key k (leaves c) = []"
      using with_key_child[OF inv Some, of a] less.prems(3) by simp
    have addc: "add_child (al + d) (Internal a m) ?i = Internal (al + d) m"
      using Some by (simp add: add_child_def find_child_def)
    have res: "\<exists>c'. insert_loop hash al k v (Internal a m) ?key d
                  = Internal (al + d) (to_map_set ?i c' m)
             \<and> inv_node hash (Suc d) c'
             \<and> without_key k (leaves c') = leaves c
             \<and> with_key k (leaves c') = [?nl]"
    proof (cases c)
      case Empty
      then show ?thesis using inv_c by simp
    next
      case (Container ca ll)
      show ?thesis
      proof (cases "d < levels - 1")
        case True
        then have "Suc d < levels" by simp
        then obtain e where ll: "ll = [e]"
          using inv_c Container by (cases ll) auto
        have ne: "get_key e \<noteq> k" using wk Container ll by (auto simp: with_key_def split: if_splits)
        obtain inner cp where mig: "migrate hash al d ?key ?i (Internal (al + d) m) = (inner, cp)"
          by fastforce
        have "insert_loop hash al k v (Internal a m) ?key d
            = update_at cp (\<lambda>n. place_leaf (al + d + length cp) (al + levels + 1) n k v) inner"
          using Some Container True mig
          by (simp add: unf child_of_def find_child_def addc)
        then show ?thesis
          using migrate_ok[OF inv Some[unfolded Container ll] \<open>Suc d < levels\<close> ne mig,
              of "al + d + length cp" "al + levels + 1" v] Container ll
          by auto
      next
        case False
        have kll: "k \<notin> get_key ` set ll"
          using wk Container by (auto simp: with_key_def filter_empty_conv)
        have "insert_loop hash al k v (Internal a m) ?key d
            = Internal (al + d) (to_map_set ?i (Container (al + d + 1) (?nl # ll)) m)"
          using Some Container False
          by (simp add: unf child_of_def find_child_def addc put_child_def place_leaf_def)
        moreover have "inv_node hash (Suc d) (Container (al + d + 1) (?nl # ll))"
          using inv_c Container False less.prems(2) kll by auto
        moreover have "without_key k (?nl # ll) = ll"
          using without_key_id[of k ll] wk Container by (simp add: without_key_def)
        moreover have "with_key k (?nl # ll) = [?nl]"
          using wk Container by (simp add: with_key_def)
        ultimately show ?thesis using Container by auto
      qed
    next
      case (Internal ca cm)
      have lt: "size_list (size_prod (\<lambda>_. 0) size) cm < size_list (size_prod (\<lambda>_. 0) size) m"
        using size_map_of_child[OF Some] Internal by simp
      have invcm: "inv_children hash (Suc d) cm" and sd: "Suc d < levels" and cmne: "cm \<noteq> []"
        using inv_c Internal by (simp_all add: inv_children_def)
      obtain cm' where rec: "insert_loop hash al k v (Internal ca cm)
            (drop_bit (chunk * Suc d) (hash k)) (Suc d) = Internal (al + Suc d) cm'"
        and cm': "cm' \<noteq> []" "inv_children hash (Suc d) cm'"
          "without_key k (leaves (Internal (al + Suc d) cm')) = leaves (Internal ca cm)"
          "with_key k (leaves (Internal (al + Suc d) cm')) = [?nl]"
        using less.IH[OF lt invcm sd, of ca "al + Suc d"] wk Internal by auto
      have "insert_loop hash al k v (Internal a m) ?key d
          = Internal (al + d) (to_map_set ?i (Internal (al + Suc d) cm') m)"
        using Some Internal rec
        by (simp add: unf child_of_def find_child_def addc put_child_def suffix_step)
      moreover have "inv_node hash (Suc d) (Internal (al + Suc d) cm')"
        using cm' sd by (simp add: inv_node_Internal del: inv_node.simps(3))
      ultimately show ?thesis using cm' Internal by auto
    qed
    then obtain c' where c': "insert_loop hash al k v (Internal a m) ?key d
          = Internal (al + d) (to_map_set ?i c' m)"
      "inv_node hash (Suc d) c'" "without_key k (leaves c') = leaves c"
      "with_key k (leaves c') = [?nl]"
      by blast
    have "m \<noteq> []" using Some by auto
    then show ?thesis
      using set_child_ok[OF inv Some c'(2,3,4), of a' a] c'(1)
      by (simp del: leaves.simps)
  qed
qed

subsection \<open>Erase keeps the invariant\<close>

lemma concat_filter_children:
  "concat (map g (rev (filter P m))) = concat (map (\<lambda>x. if P x then g x else []) (rev m))"
  by (induction m) auto

lemma remove_child_ok:
  assumes inv: "inv_children hash d m"
    and mo: "map_of m (chunk_at hash k d) = Some c"
    and wo: "without_key k (leaves c) = []"
  shows "inv_children hash d (filter (\<lambda>x. fst x \<noteq> chunk_at hash k d) m)
    \<and> leaves (Internal a (filter (\<lambda>x. fst x \<noteq> chunk_at hash k d) m))
        = without_key k (leaves (Internal a' m))"
proof -
  let ?i = "chunk_at hash k d"
  have "sorted_wrt (<) (map fst (filter (\<lambda>x. fst x \<noteq> ?i) m))"
    using inv by (simp add: inv_children_def sorted_wrt_map sorted_wrt_filter)
  then have inv': "inv_children hash d (filter (\<lambda>x. fst x \<noteq> ?i) m)"
    using inv by (simp add: inv_children_def)
  have "concat (map (\<lambda>x. if fst x \<noteq> ?i then leaves (snd x) else []) (rev m))
      = concat (map (\<lambda>x. without_key k (leaves (snd x))) (rev m))"
  proof (rule arg_cong[where f = concat], rule map_cong, simp)
    fix x assume "x \<in> set (rev m)"
    then have x: "x \<in> set m" by simp
    show "(if fst x \<noteq> ?i then leaves (snd x) else []) = without_key k (leaves (snd x))"
    proof (cases "fst x = ?i")
      case True
      then have "snd x = c" using map_of_unique[OF inv_children_distinct[OF inv] mo x] by simp
      then show ?thesis using True wo by simp
    next
      case False
      then show ?thesis using other_children_free[OF inv x False] by (simp add: without_key_id)
    qed
  qed
  then have "leaves (Internal a (filter (\<lambda>x. fst x \<noteq> ?i) m)) = without_key k (leaves (Internal a' m))"
    using concat_filter_children[of "\<lambda>x. leaves (snd x)" "\<lambda>x. fst x \<noteq> ?i" m]
    by (simp add: without_key_concat)
  then show ?thesis using inv' by blast
qed

lemma shrink_child_ok:
  assumes inv: "inv_children hash d m"
    and mo: "map_of m (chunk_at hash k d) = Some c"
    and invc: "inv_node hash (Suc d) c'"
    and lv: "leaves c' = without_key k (leaves c)"
  shows "inv_children hash d (to_map_set (chunk_at hash k d) c' m)
    \<and> leaves (Internal a (to_map_set (chunk_at hash k d) c' m))
        = without_key k (leaves (Internal a' m))"
proof -
  let ?i = "chunk_at hash k d"
  let ?m' = "to_map_set ?i c' m"
  have ic: "(?i, c) \<in> set m" using mo by (rule map_of_SomeD)
  have chunk_c': "\<forall>l \<in> set (leaves c'). chunk_at hash (get_key l) d = ?i"
    using lv inv ic by (force simp: inv_children_def without_key_def)
  have inv': "inv_children hash d ?m'"
    unfolding inv_children_def
  proof (intro conjI ballI)
    show "sorted_wrt (<) (map fst ?m')" using inv by (simp add: inv_children_def)
  next
    fix x assume "x \<in> set ?m'"
    then show "inv_node hash (Suc d) (snd x)"
      using set_to_map_set[of x ?i c' m] invc inv by (auto simp: inv_children_def)
  next
    fix x l assume "x \<in> set ?m'" "l \<in> set (leaves (snd x))"
    then show "chunk_at hash (get_key l) d = fst x"
      using set_to_map_set[of x ?i c' m] chunk_c' inv by (auto simp: inv_children_def)
  qed
  have "concat (map (\<lambda>x. if fst x = ?i then leaves (snd (?i, c')) else leaves (snd x)) (rev m))
      = concat (map (\<lambda>x. without_key k (leaves (snd x))) (rev m))"
  proof (rule arg_cong[where f = concat], rule map_cong, simp)
    fix x assume "x \<in> set (rev m)"
    then have x: "x \<in> set m" by simp
    show "(if fst x = ?i then leaves (snd (?i, c')) else leaves (snd x))
        = without_key k (leaves (snd x))"
    proof (cases "fst x = ?i")
      case True
      then have "snd x = c" using map_of_unique[OF inv_children_distinct[OF inv] mo x] by simp
      then show ?thesis using True lv by simp
    next
      case False
      then show ?thesis using other_children_free[OF inv x False] by (simp add: without_key_id)
    qed
  qed
  then have "leaves (Internal a ?m') = without_key k (leaves (Internal a' m))"
    using concat_to_map_set[of "\<lambda>x. leaves (snd x)" ?i c' m]
    by (simp add: without_key_concat)
  then show ?thesis using inv' by blast
qed

lemma remove_leaf_list_without:
  "distinct (map get_key ll) \<Longrightarrow> remove_leaf_list k ll = without_key k ll"
proof (induction ll)
  case Nil
  then show ?case by (simp add: without_key_def)
next
  case (Cons l ll)
  show ?case
  proof (cases "get_key l = k")
    case True
    then have "k \<notin> get_key ` set ll" using Cons.prems by auto
    then have "with_key k ll = []" by (auto simp: with_key_def filter_empty_conv)
    then show ?thesis using True without_key_id[of k ll] by (simp add: without_key_def)
  next
    case False
    then show ?thesis using Cons by (simp add: without_key_def)
  qed
qed

lemma single_child:
  assumes "map_of m i = Some c" "\<not> 1 < length m"
  shows "m = [(i, c)]"
proof -
  obtain x where "m = [x]" using assms by (cases m) (auto simp: not_less)
  then show ?thesis using assms(1) by (cases x) (auto split: if_splits)
qed

lemma filter_child_not_Nil:
  assumes "distinct (map fst m)" "1 < length m"
  shows "filter (\<lambda>x. fst x \<noteq> i) m \<noteq> []"
proof -
  obtain x y r where m: "m = x # y # r" using assms(2) by (cases m; cases "tl m") auto
  then have "fst x \<noteq> fst y" using assms(1) by auto
  then show ?thesis using m by auto
qed

lemma erase_loop_ok:
  assumes "inv_children hash d m" "with_key k (leaves (Internal a m)) \<noteq> []"
  shows "erase_post hash al k d first m
           (erase_loop al k (Internal a m) (drop_bit (chunk * d) (hash k)) d first)"
  using assms
proof (induction m arbitrary: a d first
    rule: measure_induct_rule[where f = "\<lambda>m. size_list (size_prod (\<lambda>_. 0) size) m"])
  case (less m)
  let ?i = "chunk_at hash k d"
  let ?key = "drop_bit (chunk * d) (hash k)"
  note inv = less.prems(1)
  note unf = erase_loop.simps[of al k "Internal a m" ?key d first] Let_def chunk_at_suffix
  obtain c where Some: "map_of m ?i = Some c"
    using with_key_no_child[OF inv, of k a] less.prems(2) by (cases "map_of m ?i") auto
  have inv_c: "inv_node hash (Suc d) c" using inv_children_child[OF inv Some] .
  have wk: "with_key k (leaves c) \<noteq> []"
    using with_key_child[OF inv Some, of a] less.prems(2) by simp
  have addc: "add_child (al + d) (Internal a m) ?i = Internal (al + d) m"
    using Some by (simp add: add_child_def find_child_def)
  have dist: "distinct (map fst m)" using inv_children_distinct[OF inv] .
  have rm: "without_key k (leaves c) = [] \<Longrightarrow> 1 < length m \<or> first \<Longrightarrow>
      erase_post hash al k d first m (Inr (Some (remove_child (al + d) (Internal (al + d) m) ?i)))"
    using remove_child_ok[OF inv Some, of "al + d" a] filter_child_not_Nil[OF dist, of ?i]
    by (auto simp: erase_post_def remove_child_def simp del: leaves.simps)
      (simp_all add: without_key_concat)
  have up: "\<not> (1 < length m \<or> first) \<Longrightarrow> without_key k (leaves c) = [] \<Longrightarrow>
      erase_post hash al k d first m (Inr None)"
    using single_child[OF Some] by (auto simp: erase_post_def)
  have keep: "\<And>c'. inv_node hash (Suc d) c' \<Longrightarrow> leaves c' = without_key k (leaves c) \<Longrightarrow>
      erase_post hash al k d first m (Inr (Some (put_child (Internal (al + d) m) ?i c')))"
  proof -
    fix c' assume "inv_node hash (Suc d) c'" "leaves c' = without_key k (leaves c)"
    from shrink_child_ok[OF inv Some this, of "al + d" a]
    show "erase_post hash al k d first m (Inr (Some (put_child (Internal (al + d) m) ?i c')))"
      using Some
      by (auto simp: erase_post_def put_child_def simp del: leaves.simps)
        (simp_all add: without_key_concat)
  qed
  show ?case
  proof (cases c)
    case Empty
    then show ?thesis using inv_c by simp
  next
    case (Container ca ll)
    show ?thesis
    proof (cases ll)
      case Nil
      then show ?thesis using inv_c Container by simp
    next
      case (Cons l ll')
      show ?thesis
      proof (cases ll')
        case Nil
        then have kl: "get_key l = k" and wo: "without_key k (leaves c) = []"
          using wk Container Cons by (auto simp: with_key_def without_key_def split: if_splits)
        show ?thesis
          using rm[OF wo] up[OF _ wo] Some Container Cons Nil kl
          by (auto simp: unf child_of_def find_child_def addc)
      next
        case (Cons l2 ll2)
        note ll = \<open>ll = l # ll'\<close> Cons
        have dk: "distinct (map get_key ll)" and bottom: "\<not> Suc d < levels" "Suc d \<le> levels"
          using inv_c Container ll by auto
        have fl: "find_leaf c k \<noteq> None"
          using wk Container by (simp add: find_leaf_with_key split: list.splits)
        have ne: "without_key k ll \<noteq> []"
          using dk ll by (auto simp: without_key_def)
        have "inv_node hash (Suc d) (Container (al + d + 1) (without_key k ll))"
          using ne dk bottom by (simp add: without_key_def distinct_map_filter)
        moreover have rl: "remove_leaf (al + d + 1) (Container ca ll) k
            = Inr (Container (al + d + 1) (without_key k ll))"
          using fl dk Container by (simp add: remove_leaf_def remove_leaf_list_without)
        ultimately have "erase_post hash al k d first m
            (Inr (Some (put_child (Internal (al + d) m) ?i (Container (al + d + 1) (without_key k ll)))))"
          using keep[of "Container (al + d + 1) (without_key k ll)"] Container by simp
        moreover have "erase_loop al k (Internal a m) ?key d first
            = Inr (Some (put_child (Internal (al + d) m) ?i (Container (al + d + 1) (without_key k ll))))"
          using Some Container rl
          by (simp add: unf child_of_def find_child_def addc ll del: remove_leaf_list.simps)
        ultimately show ?thesis by simp
      qed
    qed
  next
    case (Internal ca cm)
    have lt: "size_list (size_prod (\<lambda>_. 0) size) cm < size_list (size_prod (\<lambda>_. 0) size) m"
      using size_map_of_child[OF Some] Internal by simp
    have invcm: "inv_children hash (Suc d) cm" and sd: "Suc d < levels"
      using inv_c Internal by (simp_all add: inv_children_def)
    let ?r = "erase_loop al k (Internal ca cm) (drop_bit (chunk * Suc d) (hash k)) (Suc d) False"
    have IH: "erase_post hash al k (Suc d) False cm ?r"
      using less.IH[OF lt invcm, of ca False] wk Internal by simp
    have step: "erase_loop al k (Internal a m) ?key d first
        = (case ?r of
             Inl e \<Rightarrow> Inl e
           | Inr (Some child') \<Rightarrow> Inr (Some (put_child (Internal (al + d) m) ?i child'))
           | Inr None \<Rightarrow>
               if 1 < length m \<or> first
               then Inr (Some (remove_child (al + d) (Internal (al + d) m) ?i))
               else Inr None)"
      using Some Internal
      by (simp add: unf child_of_def find_child_def addc suffix_step
          split: sum.splits option.splits)
    show ?thesis
    proof (cases ?r)
      case (Inl e)
      then show ?thesis using IH by (simp add: erase_post_def)
    next
      case (Inr ro)
      show ?thesis
      proof (cases ro)
        case None
        then have wo: "without_key k (leaves c) = []"
          using IH Inr Internal by (simp add: erase_post_def)
        show ?thesis
          using rm[OF wo] up[OF _ wo] Inr None by (auto simp: step)
      next
        case (Some child')
        then obtain cm' where cm': "child' = Internal (al + Suc d) cm'"
          "inv_children hash (Suc d) cm'" "cm' \<noteq> []"
          "leaves child' = without_key k (leaves c)"
          using IH Inr Internal by (auto simp: erase_post_def)
        have "inv_node hash (Suc d) child'"
          using cm' sd by (simp add: inv_node_Internal del: inv_node.simps(3))
        from keep[OF this cm'(4)] show ?thesis
          using Inr Some by (simp add: step)
      qed
    qed
  qed
qed

subsection \<open>Insert and erase on the map\<close>

lemma insert_loop_Empty:
  "insert_loop hash al k v Empty key level = insert_loop hash al k v (Internal a []) key level"
  by (simp add: insert_loop.simps[of hash al k v Empty] insert_loop.simps[of hash al k v "Internal a []"]
      add_child_def child_of_def find_child_def)

lemma levels_pos: "0 < levels"
  by (simp add: levels_eq)

lemma insert_root_ok:
  assumes "inv_root hash n" "with_key k (leaves n) = []"
  shows "\<exists>m'. insert_loop hash al k v n (hash k) 0 = Internal al m'
          \<and> m' \<noteq> [] \<and> inv_children hash 0 m'
          \<and> without_key k (leaves (Internal al m')) = leaves n
          \<and> with_key k (leaves (Internal al m')) = [Leaf (al + levels + 1) k v]"
proof (cases n)
  case Empty
  have "inv_children hash 0 []" by (simp add: inv_children_def)
  from insert_loop_ok[OF this levels_pos, of k undefined al v al]
  show ?thesis using Empty by (simp add: insert_loop_Empty[of _ _ _ _ _ _ undefined] with_key_def)
next
  case (Internal a m)
  then have "inv_children hash 0 m" using assms(1) by (simp add: inv_root_def)
  from insert_loop_ok[OF this levels_pos, of k a al v al]
  show ?thesis using Internal assms(2) by simp
next
  case (Container a ll)
  then show ?thesis using assms(1) by (simp add: inv_root_def)
qed

lemma length_with_without: "length ll = length (with_key k ll) + length (without_key k ll)"
  by (simp add: with_key_def without_key_def sum_length_filter_compl)

lemma with_key_without_key:
  "with_key k' (without_key k ll) = (if k' = k then [] else with_key k' ll)"
  by (induction ll) (auto simp: with_key_def without_key_def)

lemma with_key_split:
  "k' \<noteq> k \<Longrightarrow> with_key k' ll = with_key k' (without_key k ll)"
  by (simp add: with_key_without_key)

lemma insert_sm_leaves:
  assumes "inv_sm hash sm" "with_key k (leaves (map_sm sm)) = []"
  shows "inv_root hash (map_sm (insert_sm hash al k v sm))
    \<and> without_key k (leaves (map_sm (insert_sm hash al k v sm))) = leaves (map_sm sm)
    \<and> with_key k (leaves (map_sm (insert_sm hash al k v sm))) = [Leaf (al + levels + 1) k v]
    \<and> length (leaves (map_sm (insert_sm hash al k v sm))) = Suc (length (leaves (map_sm sm)))"
proof -
  obtain m' where m': "insert_loop hash al k v (map_sm sm) (hash k) 0 = Internal al m'"
    "inv_children hash 0 m'"
    "without_key k (leaves (Internal al m')) = leaves (map_sm sm)"
    "with_key k (leaves (Internal al m')) = [Leaf (al + levels + 1) k v]"
    using insert_root_ok[of hash "map_sm sm" k al v] assms by (auto simp: inv_sm_def)
  have "length (leaves (Internal al m')) = Suc (length (leaves (map_sm sm)))"
    using length_with_without[of "leaves (Internal al m')" k] m'(3,4) by simp
  then show ?thesis
    using m' by (simp add: insert_sm_def inv_root_def del: leaves.simps)
qed

lemma insert_sm_inv:
  assumes "inv_sm hash sm" "with_key k (leaves (map_sm sm)) = []"
    "Suc (length (leaves (map_sm sm))) < 2 ^ 64"
  shows "inv_sm hash (insert_sm hash al k v sm)"
proof -
  have "unat (num sm + 1) = Suc (unat (num sm))"
    using assms(1,3) by (simp add: inv_sm_def unat_word_ariths)
  then show ?thesis
    using insert_sm_leaves[OF assms(1,2), of al v] assms(1)
    by (simp add: inv_sm_def) (simp add: insert_sm_def)
qed

lemma find_sm_insert:
  assumes "inv_sm hash sm" "with_key k (leaves (map_sm sm)) = []"
    "Suc (length (leaves (map_sm sm))) < 2 ^ 64"
  shows "find_sm chk hash (insert_sm hash al k v sm) k'
           = (if k' = k then Inr (Some v) else find_sm chk hash sm k')"
  using insert_sm_leaves[OF assms(1,2), of al v]
    with_key_split[of k' k "leaves (map_sm (insert_sm hash al k v sm))"]
  by (simp add: find_sm_leaves[OF insert_sm_inv[OF assms]] find_sm_leaves[OF assms(1)])

lemma length_with_key_le_1:
  "inv_children hash d m \<Longrightarrow> length (with_key k (leaves (Internal a m))) \<le> 1"
proof (induction m arbitrary: a d
    rule: measure_induct_rule[where f = "\<lambda>m. size_list (size_prod (\<lambda>_. 0) size) m"])
  case (less m)
  show ?case
  proof (cases "map_of m (chunk_at hash k d)")
    case None
    then show ?thesis using with_key_no_child[OF less.prems None, of a] by simp
  next
    case (Some c)
    have inv_c: "inv_node hash (Suc d) c" using inv_children_child[OF less.prems Some] .
    have wk: "with_key k (leaves (Internal a m)) = with_key k (leaves c)"
      using with_key_child[OF less.prems Some] .
    show ?thesis
    proof (cases c)
      case Empty
      then show ?thesis using inv_c by simp
    next
      case (Container ca ll)
      then have "distinct (map get_key ll)" using inv_c by simp
      then have "length (with_key k ll) \<le> 1"
        by (induction ll) (auto simp: with_key_def filter_empty_conv rev_image_eqI)
      then show ?thesis using wk Container by simp
    next
      case (Internal ca cm)
      have "size_list (size_prod (\<lambda>_. 0) size) cm < size_list (size_prod (\<lambda>_. 0) size) m"
        using size_map_of_child[OF Some] Internal by simp
      moreover have "inv_children hash (Suc d) cm"
        using inv_c Internal by (simp add: inv_children_def)
      ultimately show ?thesis using less.IH[of cm "Suc d" ca] wk Internal by simp
    qed
  qed
qed

lemma inv_root_with_key_le_1: "inv_root hash n \<Longrightarrow> length (with_key k (leaves n)) \<le> 1"
  using length_with_key_le_1[of hash 0]
  by (cases n) (auto simp: inv_root_def with_key_def)

lemma distinct_keys_if:
  "(\<And>k. length (with_key k ll) \<le> 1) \<Longrightarrow> distinct (map get_key ll)"
proof (induction ll)
  case Nil
  then show ?case by simp
next
  case (Cons l ll)
  have "\<And>k. length (with_key k ll) \<le> 1"
    using Cons.prems le_trans by (fastforce simp: with_key_def split: if_splits)
  moreover have "get_key l \<notin> get_key ` set ll"
  proof
    assume "get_key l \<in> get_key ` set ll"
    then have "with_key (get_key l) ll \<noteq> []" by (auto simp: with_key_def filter_empty_conv)
    then show False using Cons.prems[of "get_key l"] by (cases "with_key (get_key l) ll") (auto simp: with_key_def)
  qed
  ultimately show ?case using Cons.IH by simp
qed

lemma inv_root_distinct: "inv_root hash n \<Longrightarrow> distinct (map get_key (leaves n))"
  by (rule distinct_keys_if) (rule inv_root_with_key_le_1)

lemma erase_root_ok:
  assumes "inv_root hash n" "with_key k (leaves n) \<noteq> []"
  shows "\<exists>m'. erase_loop al k n (hash k) 0 True = Inr (Some (Internal al m'))
          \<and> inv_children hash 0 m'
          \<and> leaves (Internal al m') = without_key k (leaves n)"
proof (cases n)
  case Empty
  then show ?thesis using assms(2) by (simp add: with_key_def)
next
  case (Internal a m)
  then have "inv_children hash 0 m" using assms(1) by (simp add: inv_root_def)
  from erase_loop_ok[OF this, of k a al True]
  show ?thesis using Internal assms(2)
    by (auto simp: erase_post_def split: sum.splits option.splits)
next
  case (Container a ll)
  then show ?thesis using assms(1) by (simp add: inv_root_def)
qed

lemma erase_ok:
  assumes "inv_sm hash sm" "with_key k (leaves (map_sm sm)) \<noteq> []"
  shows "\<exists>sm'. erase hash al k sm = Inr sm' \<and> inv_sm hash sm'
          \<and> leaves (map_sm sm') = without_key k (leaves (map_sm sm))
          \<and> Suc (length (leaves (map_sm sm'))) = length (leaves (map_sm sm))
          \<and> num sm' = num sm - 1"
proof -
  obtain m' where m': "erase_loop al k (map_sm sm) (hash k) 0 True = Inr (Some (Internal al m'))"
    "inv_children hash 0 m'"
    "leaves (Internal al m') = without_key k (leaves (map_sm sm))"
    using erase_root_ok[of hash "map_sm sm" k al] assms by (auto simp: inv_sm_def)
  let ?sm' = "sm\<lparr>map_sm := Internal al m', num := num sm - 1\<rparr>"
  have one: "length (with_key k (leaves (map_sm sm))) = 1"
    using inv_root_with_key_le_1[of hash "map_sm sm" k] assms
    by (cases "with_key k (leaves (map_sm sm))") (auto simp: inv_sm_def)
  then have len: "Suc (length (leaves (Internal al m'))) = length (leaves (map_sm sm))"
    using length_with_without[of "leaves (map_sm sm)" k] m'(3) by simp
  then have "unat (num sm) \<noteq> 0" using assms(1) unfolding inv_sm_def by (metis Zero_not_Suc)
  then have "unat (num sm - 1) = unat (num sm) - 1"
    by (simp add: unat_minus_one unat_eq_0)
  then have "inv_sm hash ?sm'"
    using m'(2) len assms(1) by (simp add: inv_sm_def inv_root_def del: leaves.simps)
  then show ?thesis
    using m' len by (simp add: erase_def del: leaves.simps)
qed

lemma inv_sm_new: "inv_sm hash new_sm"
  by (simp add: inv_sm_def new_sm_def inv_root_def)

lemma with_key_Nil_iff: "(with_key k (leaves (map_sm sm)) = []) = (k \<notin> keys_of sm)"
  by (auto simp: with_key_def keys_of_def filter_empty_conv)

lemma find_sm_None_iff:
  "inv_sm hash sm \<Longrightarrow> (find_sm chk hash sm k = Inr None) = (k \<notin> keys_of sm)"
  by (simp add: find_sm_leaves with_key_Nil_iff[symmetric] split: list.splits)

lemma has_key_find:
  "has_key chk hash sm k
     = (case find_sm chk hash sm k of Inl e \<Rightarrow> Inl e | Inr r \<Rightarrow> Inr (r \<noteq> None))"
  by (simp add: has_key_def find_sm_def split: sum.splits option.splits)

lemma has_key_keys_of: "inv_sm hash sm \<Longrightarrow> has_key chk hash sm k = Inr (k \<in> keys_of sm)"
  using with_key_Nil_iff[of k sm]
  by (cases "with_key k (leaves (map_sm sm))") (simp_all add: has_key_find find_sm_leaves)

lemma keys_of_insert:
  assumes "inv_sm hash sm" "k \<notin> keys_of sm"
  shows "keys_of (insert_sm hash al k v sm) = insert k (keys_of sm)"
proof -
  note l = insert_sm_leaves[OF assms(1) assms(2)[folded with_key_Nil_iff], of al v]
  show ?thesis
    using set_with_without[of "leaves (map_sm (insert_sm hash al k v sm))" k] l
    by (simp add: keys_of_def)
qed

lemma keys_of_without:
  "get_key ` set (without_key k ll) = get_key ` set ll - {k}"
  by (auto simp: without_key_def)

lemma size_sm_card:
  assumes "inv_sm hash sm"
  shows "unat (size_sm sm) = card (keys_of sm)"
proof -
  have "distinct (map get_key (leaves (map_sm sm)))"
    using assms by (intro inv_root_distinct[of hash]) (simp add: inv_sm_def)
  then have "card (keys_of sm) = length (leaves (map_sm sm))"
    using distinct_card[of "map get_key (leaves (map_sm sm))"] by (simp add: keys_of_def)
  then show ?thesis using assms by (simp add: inv_sm_def size_sm_def)
qed

lemma run_ops_ok:
  assumes "inv_sm hash sm" "valid_ops (keys_of sm) ops"
    "length (leaves (map_sm sm)) + length ops < 2 ^ 64"
  shows "\<exists>sm'. run_ops hash al ops sm = Inr sm' \<and> inv_sm hash sm'
          \<and> keys_of sm' = keys_after (keys_of sm) ops"
  using assms
proof (induction ops arbitrary: sm al)
  case Nil
  then show ?case by simp
next
  case (Cons x ops)
  show ?case
  proof (cases x)
    case (Insert_op k v)
    let ?sm = "insert_sm hash al k v sm"
    have absent: "with_key k (leaves (map_sm sm)) = []" and notin: "k \<notin> keys_of sm"
      using Cons.prems(2) Insert_op by (simp_all add: with_key_Nil_iff)
    have bound: "Suc (length (leaves (map_sm sm))) < 2 ^ 64" using Cons.prems(3) by simp
    have inv: "inv_sm hash ?sm" using insert_sm_inv[OF Cons.prems(1) absent bound] .
    have keys: "keys_of ?sm = insert k (keys_of sm)"
      using keys_of_insert[OF Cons.prems(1) notin] .
    have len: "length (leaves (map_sm ?sm)) + length ops < 2 ^ 64"
      using insert_sm_leaves[OF Cons.prems(1) absent, of al v] Cons.prems(3) by simp
    show ?thesis
      using Cons.IH[OF inv _ len, of "al + levels + 2"] Cons.prems(2) Insert_op keys by simp
  next
    case (Erase_op k)
    have present: "with_key k (leaves (map_sm sm)) \<noteq> []"
      using Cons.prems(2) Erase_op by (simp add: with_key_Nil_iff)
    obtain sm' where sm': "erase hash al k sm = Inr sm'" "inv_sm hash sm'"
      "leaves (map_sm sm') = without_key k (leaves (map_sm sm))"
      "Suc (length (leaves (map_sm sm'))) = length (leaves (map_sm sm))"
      using erase_ok[OF Cons.prems(1) present, of al] by blast
    have keys: "keys_of sm' = keys_of sm - {k}"
      using sm'(3) by (simp add: keys_of_def keys_of_without)
    have len: "length (leaves (map_sm sm')) + length ops < 2 ^ 64"
      using sm'(4) Cons.prems(3) by simp
    show ?thesis
      using Cons.IH[OF sm'(2) _ len, of "al + levels + 2"] Cons.prems(2) Erase_op keys sm'(1)
      by simp
  qed
qed

text \<open>
  C3: after any sequence of fewer than \<open>2 ^ 64\<close> \<open>insert\<close> and \<open>erase\<close> calls on a new
  map, each respecting its precondition, the sequence has run without error, \<open>size()\<close>
  is the number of keys inserted and not erased afterwards, and \<open>has_key\<close> holds of
  exactly these keys.
\<close>

theorem C3_size_counts_keys:
  assumes "valid_ops {} ops" "length ops < 2 ^ 64"
  shows "\<exists>sm. run_ops hash al ops new_sm = Inr sm
          \<and> unat (size_sm sm) = card (keys_after {} ops)
          \<and> (\<forall>k. has_key chk hash sm k = Inr (k \<in> keys_after {} ops))"
proof -
  have k0: "keys_of (new_sm :: ('a, 'b) sharing_mapt) = {}"
    by (simp add: keys_of_def new_sm_def)
  obtain sm where sm: "run_ops hash al ops new_sm = Inr sm" "inv_sm hash sm"
    "keys_of sm = keys_after {} ops"
    using run_ops_ok[OF inv_sm_new, of ops hash al] assms k0 by (auto simp: new_sm_def)
  show ?thesis
    using sm size_sm_card[OF sm(2)] has_key_keys_of[OF sm(2), of chk] by simp
qed

lemma kv_of_fun: "(\<lambda>l. (get_key l, get_value l)) = kv_of"
  by (simp add: kv_of_def fun_eq_iff)

lemma iterate_loop_leaves:
  "\<forall>n \<in> set stack. \<exists>d. inv_node hash d n
     \<Longrightarrow> iterate_loop chk stack acc = Inr (acc @ concat (map (\<lambda>n. map kv_of (leaves n)) stack))"
proof (induction chk stack acc rule: iterate_loop.induct)
  case (1 chk acc)
  then show ?case by (simp add: iterate_loop.simps)
next
  case (2 chk ip stack acc)
  obtain d where d: "inv_node hash d ip" using "2.prems" by auto
  show ?case
  proof (cases ip)
    case Empty
    then show ?thesis using d by simp
  next
    case (Internal a m)
    have "\<forall>n \<in> set (rev (map snd (get_to_map ip)) @ stack). \<exists>d. inv_node hash d n"
      using d Internal "2.prems" by auto
    then have "iterate_loop chk (rev (map snd (get_to_map ip)) @ stack) acc
        = Inr (acc @ concat (map (\<lambda>n. map kv_of (leaves n)) (rev (map snd (get_to_map ip)) @ stack)))"
      using "2.IH"(1) d Internal by (simp add: sm_assert_fails_def)
    then show ?thesis
      using d Internal
      by (simp add: iterate_loop.simps sm_assert_fails_def map_concat rev_map o_def)
  next
    case (Container a ll)
    have "\<forall>n \<in> set stack. \<exists>d. inv_node hash d n" using "2.prems" by auto
    then have "iterate_loop chk stack (acc @ map (\<lambda>l. (get_key l, get_value l)) (get_container ip))
        = Inr ((acc @ map (\<lambda>l. (get_key l, get_value l)) (get_container ip))
               @ concat (map (\<lambda>n. map kv_of (leaves n)) stack))"
      using "2.IH"(2) d Container by (simp add: sm_assert_fails_def)
    then show ?thesis
      using d Container
      by (simp add: iterate_loop.simps sm_assert_fails_def kv_of_fun)
  qed
qed

lemma get_view_leaves:
  assumes "inv_sm hash sm"
  shows "get_view chk sm [] = Inr (map kv_of (leaves (map_sm sm)))"
proof (cases "num sm = 0")
  case True
  then have "leaves (map_sm sm) = []" using assms by (simp add: inv_sm_def)
  then show ?thesis using True by (simp add: get_view_def empty_sm_def sm_assert_fails_def)
next
  case False
  then have ne: "leaves (map_sm sm) \<noteq> []" using assms by (auto simp: inv_sm_def unat_eq_0)
  have "\<exists>a m. map_sm sm = Internal a m \<and> m \<noteq> [] \<and> inv_children hash 0 m"
  proof (cases "map_sm sm")
    case Empty
    then show ?thesis using ne by simp
  next
    case (Internal a m)
    then have "m \<noteq> []" using ne by auto
    then show ?thesis using Internal assms by (simp add: inv_sm_def inv_root_def)
  next
    case (Container a ll)
    then show ?thesis using assms by (simp add: inv_sm_def inv_root_def)
  qed
  then obtain a m where root: "map_sm sm = Internal a m" "m \<noteq> []" "inv_children hash 0 m"
    by blast
  then have "inv_node hash 0 (map_sm sm)"
    using levels_pos by (simp add: inv_node_Internal del: inv_node.simps(3))
  then have "iterate_loop chk [map_sm sm] [] = Inr (map kv_of (leaves (map_sm sm)))"
    using iterate_loop_leaves[of "[map_sm sm]" hash chk "[]"] by auto
  then show ?thesis
    using False root by (simp add: get_view_def empty_sm_def sm_assert_fails_def iterate_def)
qed

text \<open>
  C4: on a map with the invariants, \<open>insert(k, v)\<close> of a key that is not in the map
  followed by \<open>erase(k)\<close> succeeds and gives a map on which \<open>find\<close> answers as before
  for every key, \<open>size\<close> is as before, and \<open>get_view\<close> yields the same sequence.
\<close>

theorem C4_insert_then_erase:
  assumes "inv_sm hash sm" "find_sm chk hash sm k = Inr None"
  shows "\<exists>sm1 sm2. insert_sm hash al k v sm = sm1 \<and> erase hash al' k sm1 = Inr sm2
          \<and> (\<forall>k'. find_sm chk hash sm2 k' = find_sm chk hash sm k')
          \<and> size_sm sm2 = size_sm sm
          \<and> get_view chk sm2 [] = get_view chk sm []"
proof -
  let ?sm1 = "insert_sm hash al k v sm"
  have absent: "with_key k (leaves (map_sm sm)) = []"
    using assms by (simp add: find_sm_None_iff with_key_Nil_iff)
  note l1 = insert_sm_leaves[OF assms(1) absent, of al v]
  obtain m' where m': "erase_loop al' k (map_sm ?sm1) (hash k) 0 True = Inr (Some (Internal al' m'))"
    "inv_children hash 0 m'"
    "leaves (Internal al' m') = without_key k (leaves (map_sm ?sm1))"
    using erase_root_ok[of hash "map_sm ?sm1" k al'] l1 by auto
  let ?sm2 = "?sm1\<lparr>map_sm := Internal al' m', num := num ?sm1 - 1\<rparr>"
  have e: "erase hash al' k ?sm1 = Inr ?sm2" using m'(1) by (simp add: erase_def)
  have lv: "leaves (map_sm ?sm2) = leaves (map_sm sm)" using m'(3) l1 by (simp del: leaves.simps)
  have n: "num ?sm2 = num sm" by (simp add: insert_sm_def)
  have inv2: "inv_sm hash ?sm2"
    using assms(1) m'(2) lv n by (simp add: inv_sm_def inv_root_def del: leaves.simps)
  have "\<forall>k'. find_sm chk hash ?sm2 k' = find_sm chk hash sm k'"
    using lv by (simp add: find_sm_leaves[OF inv2] find_sm_leaves[OF assms(1)] del: leaves.simps)
  moreover have "size_sm ?sm2 = size_sm sm" using n by (simp add: size_sm_def)
  moreover have "get_view chk ?sm2 [] = get_view chk sm []"
    using lv by (simp add: get_view_leaves[OF inv2] get_view_leaves[OF assms(1)] del: leaves.simps)
  ultimately show ?thesis using e by blast
qed

text \<open>
  C6: for two distinct keys \<open>a\<close> and \<open>b\<close> with the same hash, neither in the map, after
  inserting both \<open>find\<close> returns the value of each, and both are looked up in the same
  container; after \<open>erase(a)\<close>, \<open>find(b)\<close> still returns the value of \<open>b\<close> and \<open>a\<close> is
  absent. (The map has the invariants and room for two more elements below
  \<open>2 ^ 64\<close>.)
\<close>

theorem C6_collision_chaining:
  assumes "inv_sm hash sm" "a \<noteq> b" "hash a = hash b"
    "find_sm chk hash sm a = Inr None" "find_sm chk hash sm b = Inr None"
    "unat (size_sm sm) + 2 < 2 ^ 64"
  shows "\<exists>sm2 sm3. insert_sm hash al2 b vb (insert_sm hash al1 a va sm) = sm2
          \<and> find_sm chk hash sm2 a = Inr (Some va)
          \<and> find_sm chk hash sm2 b = Inr (Some vb)
          \<and> get_container_node_const chk hash sm2 a = get_container_node_const chk hash sm2 b
          \<and> erase hash al3 a sm2 = Inr sm3
          \<and> find_sm chk hash sm3 b = Inr (Some vb)
          \<and> find_sm chk hash sm3 a = Inr None"
proof -
  let ?sm1 = "insert_sm hash al1 a va sm"
  let ?sm2 = "insert_sm hash al2 b vb ?sm1"
  have len: "length (leaves (map_sm sm)) + 2 < 2 ^ 64"
    using assms(1,6) by (simp add: inv_sm_def size_sm_def)
  have a0: "with_key a (leaves (map_sm sm)) = []" and b0: "b \<notin> keys_of sm"
    using assms(1,4,5) by (simp_all add: find_sm_None_iff with_key_Nil_iff)
  have b1': "Suc (length (leaves (map_sm sm))) < 2 ^ 64" using len by simp
  have inv1: "inv_sm hash ?sm1" using insert_sm_inv[OF assms(1) a0 b1'] .
  have k1: "keys_of ?sm1 = insert a (keys_of sm)"
    using keys_of_insert[OF assms(1)] a0 by (simp add: with_key_Nil_iff)
  have b1: "with_key b (leaves (map_sm ?sm1)) = []"
    using k1 b0 assms(2) by (simp add: with_key_Nil_iff)
  have len1: "Suc (length (leaves (map_sm ?sm1))) < 2 ^ 64"
    using insert_sm_leaves[OF assms(1) a0, of al1 va] len by simp
  have inv2: "inv_sm hash ?sm2" using insert_sm_inv[OF inv1 b1 len1] .
  have fa: "find_sm chk hash ?sm2 a = Inr (Some va)"
    using find_sm_insert[OF inv1 b1 len1, of chk al2 vb a]
      find_sm_insert[OF assms(1) a0 b1', of chk al1 va a] assms(2) by simp
  have fb: "find_sm chk hash ?sm2 b = Inr (Some vb)"
    using find_sm_insert[OF inv1 b1 len1, of chk al2 vb b] by simp
  have same: "get_container_node_const chk hash ?sm2 a = get_container_node_const chk hash ?sm2 b"
    using assms(3) by (simp add: get_container_node_const_def)
  have a2: "with_key a (leaves (map_sm ?sm2)) \<noteq> []"
    using fa by (auto simp: find_sm_leaves[OF inv2])
  obtain sm3 where sm3: "erase hash al3 a ?sm2 = Inr sm3" "inv_sm hash sm3"
    "leaves (map_sm sm3) = without_key a (leaves (map_sm ?sm2))"
    using erase_ok[OF inv2 a2, of al3] by blast
  have "find_sm chk hash sm3 b = Inr (Some vb)"
    using fb assms(2) sm3(3)
    by (simp add: find_sm_leaves[OF sm3(2)] find_sm_leaves[OF inv2] with_key_without_key)
  moreover have "find_sm chk hash sm3 a = Inr None"
    using sm3(3) by (simp add: find_sm_leaves[OF sm3(2)] with_key_without_key)
  ultimately show ?thesis using fa fb same sm3(1) by blast
qed

subsection \<open>Replace and update\<close>

lemma nc_shape:
  "get_container_node_loop_nc al ip key level = (ip', cp)
     \<Longrightarrow> (\<exists>m. ip' = Internal (al + level) m) \<and> cp \<noteq> []"
  by (subst (asm) get_container_node_loop_nc.simps)
     (auto simp: Let_def add_child_def put_child_def split: if_splits prod.splits)

lemma update_at_Internal:
  "cp \<noteq> [] \<Longrightarrow> \<exists>m'. update_at cp f (Internal a m) = Internal a m'"
  by (cases cp) (auto simp: put_child_def)

lemma child_of_add_child:
  "find_child ip i = Some c \<Longrightarrow> add_child a ip i = Internal a (get_to_map ip)"
  by (simp add: add_child_def)

lemma find_child_put:
  "find_child (Internal a m) i = Some c
     \<Longrightarrow> find_child (put_child (Internal a m) i c') i = Some c'"
  by (simp add: find_child_def put_child_def map_of_to_map_set)

lemma nc_walk:
  assumes "get_container_node_loop chk ip key = Inr (Some c)"
    and "get_container_node_loop_nc al ip key level = (ip', cp)"
  shows "node_at cp ip' = c
    \<and> (\<forall>f. is_container (f c) \<and> \<not> is_empty (f c)
           \<longrightarrow> get_container_node_loop chk (update_at cp f ip') key = Inr (Some (f c)))"
  using assms
proof (induction chk ip key arbitrary: level ip' cp rule: get_container_node_loop.induct)
  case (1 chk ip key)
  let ?bit = "key AND mask_sm"
  obtain c0 where c0: "find_child ip ?bit = Some c0"
    using "1.prems"(1) by (subst (asm) get_container_node_loop.simps) (auto split: option.splits)
  have na: "\<not> sm_assert_fails chk (\<not> is_empty c0)"
    using "1.prems"(1) c0 by (subst (asm) get_container_node_loop.simps) (auto split: if_splits)
  have ch: "child_of ip ?bit = c0" using c0 by (simp add: child_of_def)
  have ac: "add_child (al + level) ip ?bit = Internal (al + level) (get_to_map ip)"
    using c0 by (rule child_of_add_child)
  have fc: "find_child (Internal (al + level) (get_to_map ip)) ?bit = Some c0"
    using c0 by (simp add: find_child_def)
  show ?case
  proof (cases "is_container c0")
    case True
    then have c: "c = c0"
      using "1.prems"(1) c0 na by (subst (asm) get_container_node_loop.simps) simp
    have r: "ip' = Internal (al + level) (get_to_map ip)" "cp = [?bit]"
      using "1.prems"(2) True ch ac
      by (subst (asm) get_container_node_loop_nc.simps, simp add: Let_def)+
    have "node_at cp ip' = c" using r c fc by (simp add: child_of_def)
    moreover have "get_container_node_loop chk (update_at cp f ip') key = Inr (Some (f c))"
      if "is_container (f c) \<and> \<not> is_empty (f c)" for f
      using that r c fc find_child_put[OF fc, of "f c0"]
      by (simp add: get_container_node_loop.simps[of chk "update_at cp f ip'"] child_of_def
          sm_assert_fails_def)
    ultimately show ?thesis by blast
  next
    case False
    then have rec: "get_container_node_loop chk c0 (drop_bit chunk key) = Inr (Some c)"
      using "1.prems"(1) c0 na by (subst (asm) get_container_node_loop.simps) simp
    obtain child' cp' where nc: "get_container_node_loop_nc al c0 (drop_bit chunk key) (level + 1)
        = (child', cp')"
      by fastforce
    have r: "ip' = put_child (Internal (al + level) (get_to_map ip)) ?bit child'" "cp = ?bit # cp'"
      using "1.prems"(2) False ch ac nc
      by (subst (asm) get_container_node_loop_nc.simps, simp add: Let_def)+
    note IH = "1.IH"[OF c0 na False rec nc]
    obtain m' where sh: "child' = Internal (al + (level + 1)) m'" "cp' \<noteq> []"
      using nc_shape[OF nc] by blast
    have chd: "child_of ip' ?bit = child'"
      using r find_child_put[OF fc, of child'] by (simp add: child_of_def)
    have "node_at cp ip' = c" using r chd IH by simp
    moreover have "get_container_node_loop chk (update_at cp f ip') key = Inr (Some (f c))"
      if f: "is_container (f c) \<and> \<not> is_empty (f c)" for f
    proof -
      obtain m'' where u: "update_at cp' f child' = Internal (al + (level + 1)) m''"
        using update_at_Internal[OF sh(2), of f] sh(1) by blast
      have "update_at cp f ip' = put_child ip' ?bit (update_at cp' f child')"
        using r chd by simp
      then have "find_child (update_at cp f ip') ?bit = Some (update_at cp' f child')"
        using r find_child_put[OF fc] by (simp add: put_child_def to_map_set_def[symmetric])
      then have "get_container_node_loop chk (update_at cp f ip') key
          = get_container_node_loop chk (update_at cp' f child') (drop_bit chunk key)"
        using u
        by (simp add: get_container_node_loop.simps[of chk "update_at cp f ip'"] sm_assert_fails_def)
      then show ?thesis using IH f by simp
    qed
    ultimately show ?thesis by blast
  qed
qed

lemma find_set_value_list:
  "List.find (\<lambda>l. get_key l = k) ll = Some lp
     \<Longrightarrow> List.find (\<lambda>l. get_key l = k) (set_value_list la k v ll) = Some (Leaf la k v)"
  by (induction ll) (auto split: if_splits)

lemma find_leaf_set_value:
  "find_leaf c k = Some lp \<Longrightarrow> find_leaf (set_value a la c k v) k = Some (Leaf la k v)"
  by (simp add: find_leaf_def set_value_def find_set_value_list)

lemma find_sm_SomeD:
  assumes "find_sm chk hash sm k = Inr (Some old)"
  shows "\<not> empty_sm sm \<and> \<not> sm_assert_fails chk (is_defined_internal (map_sm sm))
    \<and> (\<exists>c lp. get_container_node_loop chk (map_sm sm) (hash k) = Inr (Some c)
            \<and> find_leaf c k = Some lp \<and> get_value lp = old)"
proof -
  obtain lp where lp: "get_leaf_node chk hash sm k = Inr (Some lp)" "get_value lp = old"
    using assms by (auto simp: find_sm_def split: sum.splits option.splits)
  then obtain c where c: "get_container_node_const chk hash sm k = Inr (Some c)"
    "find_leaf c k = Some lp"
    by (auto simp: get_leaf_node_def split: sum.splits option.splits)
  then show ?thesis
    using lp(2) by (auto simp: get_container_node_const_def split: if_splits)
qed

lemma write_leaf_found:
  assumes "find_sm chk hash sm k = Inr (Some old)"
    and "get_container_node hash al sm k = (root, cp)"
  shows "(\<exists>lp. find_leaf (node_at cp root) k = Some lp \<and> get_value lp = old)
    \<and> find_sm chk hash (sm\<lparr>map_sm := update_at cp (\<lambda>n. set_value a la n k v) root\<rparr>) k
        = Inr (Some v)"
proof -
  obtain c lp where c: "get_container_node_loop chk (map_sm sm) (hash k) = Inr (Some c)"
    "find_leaf c k = Some lp" "get_value lp = old" and ne: "\<not> empty_sm sm"
    using find_sm_SomeD[OF assms(1)] by blast
  have nc: "get_container_node_loop_nc al (map_sm sm) (hash k) 0 = (root, cp)"
    using assms(2) by (simp add: get_container_node_def)
  note w = nc_walk[OF c(1) nc]
  let ?f = "\<lambda>n. set_value a la n k v"
  obtain m where sh: "root = Internal (al + 0) m" "cp \<noteq> []" using nc_shape[OF nc] by blast
  obtain m' where u: "update_at cp ?f root = Internal (al + 0) m'"
    using update_at_Internal[OF sh(2), of ?f] sh(1) by blast
  have "get_container_node_loop chk (update_at cp ?f root) (hash k) = Inr (Some (?f c))"
    using w by (simp add: set_value_def)
  then have "find_sm chk hash (sm\<lparr>map_sm := update_at cp ?f root\<rparr>) k = Inr (Some v)"
    using ne u find_leaf_set_value[OF c(2), of a la v]
    by (simp add: find_sm_def get_leaf_node_def get_container_node_const_def empty_sm_def
        is_defined_internal_def sm_assert_fails_def)
  then show ?thesis using w c by blast
qed

text \<open>
  C5: for a key that \<open>find\<close> finds with the value \<open>old\<close>: with \<open>fail_if_equal\<close>,
  \<open>replace(k, v)\<close> violates an invariant if \<open>v\<close> equals \<open>old\<close> under the equality of the
  value type and otherwise succeeds, and \<open>find(k)\<close> then returns \<open>v\<close>; without the flag
  it succeeds for every \<open>v\<close>. The same holds of \<open>update\<close> with the value that the mutator
  makes of \<open>old\<close>.
\<close>

theorem C5_fail_if_equal:
  assumes "find_sm chk hash sm k = Inr (Some old)"
  shows "(veq old v \<longrightarrow> replace True veq hash al k v sm = Inl Invariant_violation)
    \<and> (\<not> veq old v \<longrightarrow>
         (\<exists>sm'. replace True veq hash al k v sm = Inr sm'
            \<and> find_sm chk hash sm' k = Inr (Some v)))
    \<and> (\<exists>sm'. replace False veq hash al k v sm = Inr sm'
            \<and> find_sm chk hash sm' k = Inr (Some v))
    \<and> (veq old (mutator old) \<longrightarrow>
         update_sm True veq hash al k mutator sm = Inl Invariant_violation)
    \<and> (\<not> veq old (mutator old) \<longrightarrow>
         (\<exists>sm'. update_sm True veq hash al k mutator sm = Inr sm'
            \<and> find_sm chk hash sm' k = Inr (Some (mutator old))))
    \<and> (\<exists>sm'. update_sm False veq hash al k mutator sm = Inr sm'
            \<and> find_sm chk hash sm' k = Inr (Some (mutator old)))"
proof -
  obtain root cp where g: "get_container_node hash al sm k = (root, cp)" by fastforce
  note w = write_leaf_found[OF assms g, of "al + length cp" "al + levels + 1"]
  obtain lp where lp: "find_leaf (node_at cp root) k = Some lp" "get_value lp = old"
    using w by blast
  let ?sm' = "\<lambda>v'. sm\<lparr>map_sm :=
      update_at cp (\<lambda>n. set_value (al + length cp) (al + levels + 1) n k v') root\<rparr>"
  have r: "replace fie veq hash al k v sm
      = (if fie \<and> veq old v then Inl Invariant_violation else Inr (?sm' v))" for fie
    using g lp by (simp add: replace_def value_equalt_def)
  have u: "update_sm fie veq hash al k mutator sm
      = (if fie \<and> veq old (mutator old) then Inl Invariant_violation
         else Inr (?sm' (mutator old)))" for fie
    using g lp by (simp add: update_sm_def value_comparatort_def Let_def)
  have f: "find_sm chk hash (?sm' v') k = Inr (Some v')" for v'
    using w[of v'] by blast
  have r1: "veq old v \<Longrightarrow> replace True veq hash al k v sm = Inl Invariant_violation"
    by (simp add: r)
  have r2: "\<not> veq old v \<Longrightarrow> replace True veq hash al k v sm = Inr (?sm' v)"
    by (simp add: r)
  have r3: "replace False veq hash al k v sm = Inr (?sm' v)"
    by (simp add: r)
  have u1: "veq old (mutator old)
      \<Longrightarrow> update_sm True veq hash al k mutator sm = Inl Invariant_violation"
    by (simp add: u)
  have u2: "\<not> veq old (mutator old)
      \<Longrightarrow> update_sm True veq hash al k mutator sm = Inr (?sm' (mutator old))"
    by (simp add: u)
  have u3: "update_sm False veq hash al k mutator sm = Inr (?sm' (mutator old))"
    by (simp add: u)
  show ?thesis
    using r1 r2 r3 u1 u2 u3 f[of v] f[of "mutator old"] by blast
qed

subsection \<open>Keys of a delta view\<close>

lemma iterate_loop_result:
  "iterate_loop chk stack acc = Inr r
     \<Longrightarrow> r = acc @ concat (map (\<lambda>n. map kv_of (leaves n)) stack)"
proof (induction chk stack acc arbitrary: r rule: iterate_loop.induct)
  case (1 chk acc)
  then show ?case by (simp add: iterate_loop.simps)
next
  case (2 chk ip stack acc)
  note unf = "2.prems"[unfolded iterate_loop.simps(2)[of chk ip stack acc]]
  show ?case
  proof (cases ip)
    case Empty
    then show ?thesis
      using unf "2.IH"(1)[of r] by (simp split: if_splits)
  next
    case (Internal a m)
    then show ?thesis
      using unf "2.IH"(1)[of r] by (simp add: map_concat rev_map o_def split: if_splits)
  next
    case (Container a ll)
    then show ?thesis
      using unf "2.IH"(2)[of r] by (simp add: kv_of_fun split: if_splits)
  qed
qed

lemma keys_in_append [simp]: "keys_in L (xs @ ys) = (keys_in L xs \<and> keys_in L ys)"
  by (auto simp: keys_in_def)

lemma keys_in_mono: "keys_in L dv \<Longrightarrow> L \<subseteq> L' \<Longrightarrow> keys_in L' dv"
  by (auto simp: keys_in_def)

lemma gather_all_keys:
  "gather_all chk n dv = Inr r \<Longrightarrow> keys_in L dv \<Longrightarrow> set (leaves n) \<subseteq> L \<Longrightarrow> keys_in L r"
  using iterate_loop_result[of chk "[n]" "[]"]
  by (fastforce simp: gather_all_def iterate_def keys_in_def kv_of_def split: sum.splits if_splits)

lemma add_item_scan_keys:
  "keys_in L dv \<Longrightarrow> l1 \<in> L \<Longrightarrow> keys_in L (add_item_scan l1 ll dv)"
  by (induction ll) (auto simp: keys_in_def intro: rev_image_eqI)

lemma add_item_loop_keys:
  "add_item_loop chk l1 c ip key dv oc = Inr r \<Longrightarrow> keys_in L dv \<Longrightarrow> l1 \<in> L \<Longrightarrow> keys_in L r"
proof (induction chk l1 c ip key dv oc arbitrary: r rule: add_item_loop.induct)
  case (1 chk l1 container ip key delta_view only_common)
  show ?case
    using "1.prems" "1.IH"[of _ r] add_item_scan_keys[OF "1.prems"(2,3)]
    by (subst (asm) add_item_loop.simps)
       (auto simp: keys_in_def split: option.splits if_splits)
qed

lemma add_item_if_not_shared_keys:
  "add_item_if_not_shared chk hash c inner level dv oc = Inr r \<Longrightarrow> keys_in L dv
     \<Longrightarrow> set (leaves c) \<subseteq> L \<Longrightarrow> keys_in L r"
  using add_item_loop_keys[of chk _ c inner _ dv oc r L]
  by (cases c) (auto simp: add_item_if_not_shared_def split: list.splits if_splits)

lemma child_leaves_subset: "x \<in> set m \<Longrightarrow> set (leaves (snd x)) \<subseteq> set (leaves (Internal a m))"
  by auto

lemma push_unshared_in:
  "stack_in L stack \<Longrightarrow> \<forall>x \<in> set items. set (leaves (snd x)) \<subseteq> L
     \<Longrightarrow> stack_in L (push_unshared ip2 items stack)"
  by (induction ip2 items stack rule: push_unshared.induct) (auto simp: stack_in_def)

lemma delta_children_keys:
  "delta_children chk oc ip2 level items stack dv = Inr (stack', dv')
     \<Longrightarrow> stack_in L stack \<Longrightarrow> keys_in L dv \<Longrightarrow> \<forall>x \<in> set items. set (leaves (snd x)) \<subseteq> L
     \<Longrightarrow> stack_in L stack' \<and> keys_in L dv'"
proof (induction items arbitrary: stack dv)
  case Nil
  then show ?case by simp
next
  case (Cons item items)
  have sub: "\<forall>x \<in> set items. set (leaves (snd x)) \<subseteq> L" "set (leaves (snd item)) \<subseteq> L"
    using Cons.prems(4) by auto
  show ?case
  proof (cases "find_child ip2 (fst item)")
    case None
    show ?thesis
    proof (cases oc)
      case True
      then show ?thesis using Cons.IH[OF _ Cons.prems(2,3) sub(1)] Cons.prems(1) None by simp
    next
      case False
      then obtain dv1 where g: "gather_all chk (snd item) dv = Inr dv1"
        and rec: "delta_children chk oc ip2 level items stack dv1 = Inr (stack', dv')"
        using Cons.prems(1) None by (auto split: sum.splits)
      show ?thesis
        using Cons.IH[OF rec Cons.prems(2) gather_all_keys[OF g Cons.prems(3) sub(2)] sub(1)] .
    qed
  next
    case (Some p)
    have "stack_in L ((snd item, p, level + 1) # stack)"
      using Cons.prems(2) sub(2) by (simp add: stack_in_def)
    then show ?thesis
      using Cons.IH[OF _ _ Cons.prems(3) sub(1)] Cons.prems(1,2) Some
      by (auto split: if_splits)
  qed
qed

lemma delta_leaves_keys:
  "delta_leaves chk hash other oc ip2 ll dv = Inr r \<Longrightarrow> keys_in L dv \<Longrightarrow> set ll \<subseteq> L
     \<Longrightarrow> keys_in L r"
proof (induction ll arbitrary: dv)
  case Nil
  then show ?case by simp
next
  case (Cons l1 ll)
  have k: "keys_in L (dv @ [Delta_item (get_key l1) (get_value l1) x])" for x
    using Cons.prems(2,3) by (auto simp: keys_in_def)
  show ?case
    using Cons.prems(1,3) Cons.IH[OF _ k] Cons.IH[OF _ Cons.prems(2)]
    by (auto split: option.splits if_splits)
qed

lemma delta_loop_keys:
  "delta_loop chk hash other oc stack dv = Inr r \<Longrightarrow> stack_in L stack \<Longrightarrow> keys_in L dv
     \<Longrightarrow> keys_in L r"
proof (induction chk hash other oc stack dv arbitrary: r rule: delta_loop.induct)
  case (1 chk hash other only_common delta_view)
  then show ?case by (simp add: delta_loop.simps)
next
  case (2 chk hash other only_common ip1 ip2 level stack delta_view)
  have st: "stack_in L stack" and l1: "set (leaves ip1) \<subseteq> L"
    using "2.prems"(2) by (simp_all add: stack_in_def)
  have ch: "\<forall>x \<in> set (get_to_map ip1). set (leaves (snd x)) \<subseteq> L"
    using l1 by (cases ip1) auto
  note unf = "2.prems"(1)[unfolded delta_loop.simps(2)[of chk hash other only_common ip1 ip2 level stack delta_view]]
  show ?case
  proof (cases "sm_assert_fails chk (\<not> is_empty ip1) \<or> sm_assert_fails chk (\<not> is_empty ip2)")
    case True
    then show ?thesis using unf by simp
  next
    case na: False
    show ?thesis
    proof (cases "is_internal ip1 \<and> is_container ip2")
      case True
      then show ?thesis
        using unf na "2.IH"(1)[OF na True _ _ push_unshared_in[OF st ch] "2.prems"(3), of r]
        by (auto split: if_splits)
    next
      case nb: False
      show ?thesis
      proof (cases "is_internal ip1")
        case True
        then obtain stack' dv' where
          dc: "delta_children chk only_common ip2 level (get_to_map ip1) stack delta_view
                = Inr (stack', dv')"
          and rec: "delta_loop chk hash other only_common stack' dv' = Inr r"
          and nc: "\<not> sm_assert_fails chk (is_internal ip2)"
          using unf na nb by (auto split: if_splits sum.splits)
        note k = delta_children_keys[OF dc st "2.prems"(3) ch]
        show ?thesis
          using "2.IH"(2)[OF na nb True nc dc refl rec] k by simp
      next
        case nc: False
        have cont: "set (get_container ip1) \<subseteq> L" using l1 nc by (cases ip1) auto
        show ?thesis
        proof (cases "is_internal ip2")
          case True
          then obtain dv' where
            ai: "add_item_if_not_shared chk hash ip1 ip2 level delta_view only_common = Inr dv'"
            and rec: "delta_loop chk hash other only_common stack dv' = Inr r"
            and nd: "\<not> sm_assert_fails chk (is_container ip1)"
              "\<not> (sm_assert_fails chk (is_singular (get_container ip1))
                  \<or> sm_assert_fails chk (level \<noteq> dummy_level))"
            using unf na nb nc by (auto split: if_splits sum.splits)
          show ?thesis
            using "2.IH"(3)[OF na nb nc nd(1) True nd(2) ai rec st
                add_item_if_not_shared_keys[OF ai "2.prems"(3) l1]] .
        next
          case ne: False
          then obtain dv' where
            dl: "delta_leaves chk hash other only_common ip2 (get_container ip1) delta_view = Inr dv'"
            and rec: "delta_loop chk hash other only_common stack dv' = Inr r"
            and nd: "\<not> sm_assert_fails chk (is_container ip1)"
              "\<not> sm_assert_fails chk (is_container ip2)"
            using unf na nb nc by (auto split: if_splits sum.splits)
          show ?thesis
            using "2.IH"(4)[OF na nb nc nd(1) ne nd(2) dl rec st
                delta_leaves_keys[OF dl "2.prems"(3) cont]] .
        qed
      qed
    qed
  qed
qed

lemma get_delta_view_keys:
  assumes "get_delta_view chk hash sm other [] oc = Inr r"
  shows "keys_in (set (leaves (map_sm sm))) r"
proof -
  let ?L = "set (leaves (map_sm sm))"
  have e: "keys_in ?L []" by (simp add: keys_in_def)
  have s: "stack_in ?L [(map_sm sm, map_sm other, 0)]" by (simp add: stack_in_def)
  show ?thesis
    using assms gather_all_keys[where chk = chk and n = "map_sm sm" and r = r, OF _ e subset_refl]
      delta_loop_keys[where chk = chk and hash = hash and other = other and oc = oc and r = r,
        OF _ s e] e
    by (auto simp: get_delta_view_def split: if_splits)
qed

subsection \<open>Examples\<close>

lemmas insert_eval = insert_sm_def insert_loop.simps migrate_def migrate_loop.simps
  add_child_def child_of_def put_child_def place_leaf_def find_child_def to_map_set_def
  new_sm_def hash_nat_def mask_eq levels_eq chunk_def Let_def remove_child_def

lemmas lookup_eval = find_sm_def get_leaf_node_def get_container_node_const_def
  get_container_node_loop.simps find_child_def find_leaf_def empty_sm_def
  is_defined_internal_def sm_assert_fails_def mask_eq chunk_def hash_nat_def

lemmas view_eval = get_view_def iterate_def iterate_loop.simps get_delta_view_def
  delta_loop.simps add_item_if_not_shared_def add_item_loop.simps shares_with_def
  leaf_shares_with_def gather_all_def is_singular_def dummy_level_def has_key_def

lemma map_A_eval:
  "map_A = \<lparr>map_sm = Internal 100 [(0, Container 101 [Leaf 111 8 80])], num = 1\<rparr>"
  by (simp add: map_A_def insert_eval)

lemma map_B_eval:
  "map_B = \<lparr>map_sm = Internal 300
             [(0, Internal 301
                   [(1, Container 201 [Leaf 211 72 720]), (2, Container 302 [Leaf 311 16 160])])],
           num = 2\<rparr>"
  by (simp add: map_B_def insert_eval)

lemma map_A_inv: "inv_sm hash_nat map_A"
  unfolding map_A_def
  by (rule insert_sm_inv[OF inv_sm_new]) (simp_all add: new_sm_def with_key_def)

text \<open>
  C1 at \<open>map_A\<close> and \<open>map_B\<close>: with \<open>only_common\<close> the delta view of \<open>map_A\<close> against
  \<open>map_B\<close> holds an item for the key 8, which is not in \<open>map_B\<close>. The item comes from
  the \<open>push_back\<close> of l.879, which does not test \<open>only_common\<close>.
\<close>

theorem C1_only_common_key_not_in_other:
  "get_delta_view False hash_nat map_A map_B [] True = Inr [Delta_item 8 80 None]
   \<and> find_sm False hash_nat map_B 8 = Inr None
   \<and> has_key False hash_nat map_B 8 = Inr False"
  unfolding map_A_eval map_B_eval
  by (simp add: view_eval lookup_eval)

text \<open>
  C7 as stated fails in the default build: with a non-empty output sequence both
  views return, with their items after the old content.
\<close>

theorem C7_counterexample:
  "get_view False map_A [(5, 50)] = Inr [(5, 50), (8, 80)]
   \<and> get_delta_view False hash_nat map_A new_sm [Delta_item 5 50 None] False
       = Inr [Delta_item 5 50 None, Delta_item 8 80 None]"
  unfolding map_A_eval
  by (simp add: view_eval lookup_eval new_sm_def)

theorem C3_witness:
  "valid_ops {} [Insert_op (8 :: nat) (80 :: nat), Insert_op 16 160, Erase_op 8]
   \<and> length [Insert_op (8 :: nat) (80 :: nat), Insert_op 16 160, Erase_op 8] < 2 ^ 64
   \<and> (\<exists>sm. run_ops hash_nat 100 [Insert_op (8 :: nat) (80 :: nat), Insert_op 16 160, Erase_op 8]
               new_sm = Inr sm
          \<and> unat (size_sm sm)
              = card (keys_after {} [Insert_op (8 :: nat) (80 :: nat), Insert_op 16 160, Erase_op 8])
          \<and> (\<forall>k. has_key False hash_nat sm k
                   = Inr (k \<in> keys_after {}
                            [Insert_op (8 :: nat) (80 :: nat), Insert_op 16 160, Erase_op 8])))"
  using C3_size_counts_keys[of "[Insert_op (8 :: nat) (80 :: nat), Insert_op 16 160, Erase_op 8]"
      hash_nat 100 False]
  by simp

theorem C4_witness:
  "inv_sm hash_nat map_A
   \<and> find_sm False hash_nat map_A 16 = Inr None
   \<and> (\<exists>sm1 sm2. insert_sm hash_nat 200 16 160 map_A = sm1
          \<and> erase hash_nat 300 16 sm1 = Inr sm2
          \<and> (\<forall>k'. find_sm False hash_nat sm2 k' = find_sm False hash_nat map_A k')
          \<and> size_sm sm2 = size_sm map_A
          \<and> get_view False sm2 [] = get_view False map_A [])"
proof -
  have f: "find_sm False hash_nat map_A 16 = Inr None"
    unfolding map_A_eval by (simp add: lookup_eval)
  show ?thesis
    using C4_insert_then_erase[OF map_A_inv f, of 200 160 300] map_A_inv f by simp
qed

theorem C6_witness:
  "inv_sm (\<lambda>_. 5) (new_sm :: (string, nat) sharing_mapt)
   \<and> ''a'' \<noteq> ''b''
   \<and> find_sm False (\<lambda>_. 5) (new_sm :: (string, nat) sharing_mapt) ''a'' = Inr None
   \<and> find_sm False (\<lambda>_. 5) (new_sm :: (string, nat) sharing_mapt) ''b'' = Inr None
   \<and> unat (size_sm (new_sm :: (string, nat) sharing_mapt)) + 2 < 2 ^ 64
   \<and> (\<exists>sm2 sm3. insert_sm (\<lambda>_. 5) 200 ''b'' (2 :: nat) (insert_sm (\<lambda>_. 5) 100 ''a'' 1 new_sm) = sm2
          \<and> find_sm False (\<lambda>_. 5) sm2 ''a'' = Inr (Some 1)
          \<and> find_sm False (\<lambda>_. 5) sm2 ''b'' = Inr (Some 2)
          \<and> get_container_node_const False (\<lambda>_. 5) sm2 ''a''
              = get_container_node_const False (\<lambda>_. 5) sm2 ''b''
          \<and> erase (\<lambda>_. 5) 300 ''a'' sm2 = Inr sm3
          \<and> find_sm False (\<lambda>_. 5) sm3 ''b'' = Inr (Some 2)
          \<and> find_sm False (\<lambda>_. 5) sm3 ''a'' = Inr None)"
proof -
  have f: "find_sm False (\<lambda>_. 5) (new_sm :: (string, nat) sharing_mapt) k = Inr None" for k
    by (simp add: new_sm_def find_sm_def get_leaf_node_def get_container_node_const_def empty_sm_def)
  have s: "unat (size_sm (new_sm :: (string, nat) sharing_mapt)) + 2 < 2 ^ 64"
    by (simp add: new_sm_def size_sm_def)
  have ne: "''a'' \<noteq> ''b''" by simp
  show ?thesis
    using C6_collision_chaining[where hash = "\<lambda>_. 5" and chk = False and ?al1.0 = 100
          and ?al2.0 = 200 and ?al3.0 = 300 and va = 1 and vb = 2, OF inv_sm_new ne refl f f s]
      inv_sm_new[of "\<lambda>_. 5"] f s
    by simp
qed

lemma map_K_eval:
  "map_K = \<lparr>map_sm = Internal 100 [(0, Container 101 [Leaf 111 ''k'' 5])], num = 1\<rparr>"
  by (simp add: map_K_def insert_eval)

theorem C5_witness:
  "find_sm False (\<lambda>_. 0) map_K ''k'' = Inr (Some 5)
   \<and> replace True (=) (\<lambda>_. 0) 200 ''k'' 5 map_K = Inl Invariant_violation
   \<and> (\<exists>sm'. replace True (=) (\<lambda>_. 0) 200 ''k'' 6 map_K = Inr sm'
          \<and> find_sm False (\<lambda>_. 0) sm' ''k'' = Inr (Some 6))
   \<and> (\<exists>sm'. replace False (=) (\<lambda>_. 0) 200 ''k'' 5 map_K = Inr sm'
          \<and> find_sm False (\<lambda>_. 0) sm' ''k'' = Inr (Some 5))
   \<and> update_sm True (=) (\<lambda>_. 0) 200 ''k'' id map_K = Inl Invariant_violation
   \<and> (\<exists>sm'. update_sm True (=) (\<lambda>_. 0) 200 ''k'' Suc map_K = Inr sm'
          \<and> find_sm False (\<lambda>_. 0) sm' ''k'' = Inr (Some 6))
   \<and> (\<exists>sm'. update_sm False (=) (\<lambda>_. 0) 200 ''k'' id map_K = Inr sm'
          \<and> find_sm False (\<lambda>_. 0) sm' ''k'' = Inr (Some 5))"
proof -
  have f: "find_sm False (\<lambda>_. 0) map_K ''k'' = Inr (Some 5)"
    unfolding map_K_eval by (simp add: lookup_eval)
  show ?thesis
    using f
      C5_fail_if_equal[OF f, where veq = "(=)" and v = 5 and al = 200 and mutator = id]
      C5_fail_if_equal[OF f, where veq = "(=)" and v = 6 and al = 200 and mutator = Suc]
    by simp
qed

subsection \<open>Further properties of the operations\<close>

text \<open>
  Every item of a delta view carries a key of the first map (the half of P5 that
  holds): on a first map with the invariants, \<open>has_key\<close> holds of the key of every
  item.
\<close>

theorem delta_view_keys_in_first_map:
  assumes "inv_sm hash sm" "get_delta_view chk hash sm other [] only_common = Inr r"
  shows "\<forall>it \<in> set r. has_key chk hash sm (item_k it) = Inr True"
  using get_delta_view_keys[OF assms(2)] has_key_keys_of[OF assms(1), of chk]
  by (auto simp: keys_in_def keys_of_def)

theorem delta_view_keys_in_first_map_witness:
  "inv_sm hash_nat map_A
   \<and> get_delta_view False hash_nat map_A map_B [] False = Inr [Delta_item 8 80 None]
   \<and> has_key False hash_nat map_A 8 = Inr True"
proof -
  have g: "get_delta_view False hash_nat map_A map_B [] False = Inr [Delta_item 8 80 None]"
    unfolding map_A_eval map_B_eval by (simp add: view_eval lookup_eval)
  show ?thesis
    using delta_view_keys_in_first_map[OF map_A_inv g] map_A_inv g by simp
qed

text \<open>
  P7: on a map with the invariants, \<open>get_view\<close> yields \<open>size()\<close> items with distinct
  keys.
\<close>

theorem get_view_size_distinct:
  assumes "inv_sm hash sm"
  shows "\<exists>items. get_view chk sm [] = Inr items \<and> length items = unat (size_sm sm)
           \<and> distinct (map fst items)"
proof -
  have "distinct (map get_key (leaves (map_sm sm)))"
    using assms by (intro inv_root_distinct[of hash]) (simp add: inv_sm_def)
  moreover have "fst \<circ> kv_of = (get_key :: ('a, 'b) leaft \<Rightarrow> 'a)"
    by (rule ext) (simp add: kv_of_def)
  ultimately have "distinct (map (fst \<circ> kv_of) (leaves (map_sm sm)))"
    by simp
  then show ?thesis
    using get_view_leaves[OF assms, of chk] assms by (simp add: inv_sm_def size_sm_def)
qed

theorem get_view_size_distinct_witness:
  "inv_sm hash_nat map_A
   \<and> (\<exists>items. get_view False map_A [] = Inr items \<and> length items = unat (size_sm map_A)
          \<and> distinct (map fst items))"
  using get_view_size_distinct[OF map_A_inv, of False] map_A_inv by simp

text \<open>
  P8: after any sequence of fewer than \<open>2 ^ 64\<close> \<open>insert\<close> and \<open>erase\<close> calls on a new
  map, each respecting its precondition, the map has the invariants I1-I6.
\<close>

theorem invariants_after_ops:
  assumes "valid_ops {} ops" "length ops < 2 ^ 64"
  shows "\<exists>sm. run_ops hash al ops new_sm = Inr sm \<and> inv_sm hash sm"
proof -
  have "keys_of (new_sm :: ('a, 'b) sharing_mapt) = {}"
    by (simp add: keys_of_def new_sm_def)
  then show ?thesis
    using run_ops_ok[OF inv_sm_new, of ops hash al] assms by (auto simp: new_sm_def)
qed

theorem invariants_after_ops_witness:
  "valid_ops {} [Insert_op (8 :: nat) (80 :: nat), Insert_op 16 160, Erase_op 8]
   \<and> length [Insert_op (8 :: nat) (80 :: nat), Insert_op 16 160, Erase_op 8] < 2 ^ 64
   \<and> (\<exists>sm. run_ops hash_nat 100 [Insert_op (8 :: nat) (80 :: nat), Insert_op 16 160, Erase_op 8]
               new_sm = Inr sm
          \<and> inv_sm hash_nat sm)"
  using invariants_after_ops[of "[Insert_op (8 :: nat) (80 :: nat), Insert_op 16 160, Erase_op 8]"
      hash_nat 100]
  by simp

text \<open>
  \<open>find\<close> after \<open>insert\<close>: on a map with the invariants and fewer than \<open>2 ^ 64 - 1\<close>
  elements, after \<open>insert(k, v)\<close> of a key that is not in the map \<open>find(k)\<close> returns \<open>v\<close>
  and \<open>find\<close> of every other key is as before.
\<close>

theorem find_after_insert:
  assumes "inv_sm hash sm" "find_sm chk hash sm k = Inr None" "unat (size_sm sm) + 1 < 2 ^ 64"
  shows "find_sm chk hash (insert_sm hash al k v sm) k'
           = (if k' = k then Inr (Some v) else find_sm chk hash sm k')"
proof -
  have a: "with_key k (leaves (map_sm sm)) = []"
    using assms(1,2) by (simp add: find_sm_None_iff with_key_Nil_iff)
  have b: "Suc (length (leaves (map_sm sm))) < 2 ^ 64"
    using assms(1,3) by (simp add: inv_sm_def size_sm_def)
  show ?thesis using find_sm_insert[OF assms(1) a b] .
qed

theorem find_after_insert_witness:
  "inv_sm hash_nat map_A \<and> find_sm False hash_nat map_A 16 = Inr None
   \<and> unat (size_sm map_A) + 1 < 2 ^ 64
   \<and> find_sm False hash_nat (insert_sm hash_nat 200 16 160 map_A) 16 = Inr (Some 160)
   \<and> find_sm False hash_nat (insert_sm hash_nat 200 16 160 map_A) 8
       = find_sm False hash_nat map_A 8"
proof -
  have f: "find_sm False hash_nat map_A 16 = Inr None"
    unfolding map_A_eval by (simp add: lookup_eval)
  have s: "unat (size_sm map_A) + 1 < 2 ^ 64"
    unfolding map_A_eval by (simp add: size_sm_def)
  show ?thesis
    using find_after_insert[OF map_A_inv f s, of 200 160 16]
      find_after_insert[OF map_A_inv f s, of 200 160 8] map_A_inv f s
    by simp
qed

text \<open>
  \<open>find\<close> after \<open>erase\<close>: on a map with the invariants, \<open>erase(k)\<close> of a key that is in
  the map succeeds; afterwards \<open>find(k)\<close> is absent, \<open>find\<close> of every other key is as
  before, and \<open>size()\<close> is one less.
\<close>

theorem find_after_erase:
  assumes "inv_sm hash sm" "find_sm chk hash sm k = Inr (Some v)"
  shows "\<exists>sm'. erase hash al k sm = Inr sm'
          \<and> (\<forall>k'. find_sm chk hash sm' k'
                    = (if k' = k then Inr None else find_sm chk hash sm k'))
          \<and> size_sm sm' = size_sm sm - 1"
proof -
  have p: "with_key k (leaves (map_sm sm)) \<noteq> []"
    using assms by (auto simp: find_sm_leaves)
  obtain sm' where sm': "erase hash al k sm = Inr sm'" "inv_sm hash sm'"
    "leaves (map_sm sm') = without_key k (leaves (map_sm sm))" "num sm' = num sm - 1"
    using erase_ok[OF assms(1) p, of al] by blast
  have "\<forall>k'. find_sm chk hash sm' k' = (if k' = k then Inr None else find_sm chk hash sm k')"
    using sm'(3) by (simp add: find_sm_leaves[OF sm'(2)] find_sm_leaves[OF assms(1)] with_key_without_key)
  then show ?thesis using sm'(1,4) by (simp add: size_sm_def)
qed

theorem find_after_erase_witness:
  "inv_sm hash_nat map_A \<and> find_sm False hash_nat map_A 8 = Inr (Some 80)
   \<and> (\<exists>sm'. erase hash_nat 200 8 map_A = Inr sm'
          \<and> (\<forall>k'. find_sm False hash_nat sm' k'
                    = (if k' = 8 then Inr None else find_sm False hash_nat map_A k'))
          \<and> size_sm sm' = size_sm map_A - 1)"
proof -
  have f: "find_sm False hash_nat map_A 8 = Inr (Some 80)"
    unfolding map_A_eval by (simp add: lookup_eval)
  show ?thesis
    using find_after_erase[OF map_A_inv f, of 200] map_A_inv f by simp
qed

end
